theory Spec2Isabelle
  imports Complex_Main "HOL-Library.Code_Target_Nat"
begin

section \<open>Shot detection engine of bball\_shots (core.js)\<close>

text \<open>
  The embedding follows the later revision of \<^verbatim>\<open>core.js\<close> (the one with the
  consensus voter and the motion calibrator, whose threshold comments read
  ``was 8 -- tighter''). The earlier revision kept under \<^verbatim>\<open>js/core.js\<close> has the same
  detector with \<^verbatim>\<open>MAX_DIP_ABS = 8\<close>, \<^verbatim>\<open>MIN_RISE_FROM_DIP = 4\<close>,
  \<^verbatim>\<open>MIN_PEAK_TO_DIP_ABS = 6\<close> and no post-filters.

  JavaScript numbers are modelled as reals: arithmetic is exact, and the values
  \<^verbatim>\<open>NaN\<close> and \<^verbatim>\<open>Infinity\<close> appear only where the source uses them as
  sentinels (\<^verbatim>\<open>-Infinity\<close> for ``no shot yet'', \<^verbatim>\<open>Infinity\<close> for ``no profile'').
  Array indices and lengths are natural numbers. A field that may be absent from an
  object is an \<open>option\<close>.
\<close>

subsection \<open>IMU buffer\<close>

record 'a IMUBuffer =
  maxSize :: nat
  shiftSize :: nat
  data :: "'a list"
  totalPushed :: nat
  offset :: nat

definition new_IMUBuffer :: "nat \<Rightarrow> nat \<Rightarrow> 'a IMUBuffer" where
  "new_IMUBuffer m s =
     \<lparr>maxSize = m, shiftSize = s, data = [], totalPushed = 0, offset = 0\<rparr>"

text \<open>\<^verbatim>\<open>new IMUBuffer()\<close>: the constructor's default arguments.\<close>

definition default_IMUBuffer :: "'a IMUBuffer" where
  "default_IMUBuffer = new_IMUBuffer 3000 1000"

text \<open>
  \<^verbatim>\<open>push\<close>: append, count, and when the live window is longer than \<^verbatim>\<open>maxSize\<close>
  drop the oldest \<^verbatim>\<open>shiftSize\<close> samples (\<^verbatim>\<open>slice(shiftSize)\<close>) and add
  \<^verbatim>\<open>shiftSize\<close> to the offset.
\<close>

definition push :: "'a IMUBuffer \<Rightarrow> 'a \<Rightarrow> 'a IMUBuffer" where
  "push b sample =
     (let b1 = b\<lparr>data := data b @ [sample], totalPushed := totalPushed b + 1\<rparr>
      in if length (data b1) > maxSize b1
         then b1\<lparr>data := drop (shiftSize b1) (data b1),
                 offset := offset b1 + shiftSize b1\<rparr>
         else b1)"

definition buf_length :: "'a IMUBuffer \<Rightarrow> nat" where
  "buf_length b = length (data b)"

text \<open>\<^verbatim>\<open>get(i)\<close> is \<^verbatim>\<open>undefined\<close> outside the live window.\<close>

definition get :: "'a IMUBuffer \<Rightarrow> nat \<Rightarrow> 'a option" where
  "get b i = (if i < length (data b) then Some (data b ! i) else None)"

definition absIndex :: "'a IMUBuffer \<Rightarrow> nat \<Rightarrow> nat" where
  "absIndex b i = i + offset b"

definition tail :: "'a IMUBuffer \<Rightarrow> nat \<Rightarrow> 'a list" where
  "tail b n = drop (length (data b) - n) (data b)"

definition clear :: "'a IMUBuffer \<Rightarrow> 'a IMUBuffer" where
  "clear b = b\<lparr>data := [], totalPushed := 0, offset := 0\<rparr>"

text \<open>
  The absolute index of the slot that the next \<^verbatim>\<open>push\<close> fills: the pushed sample
  lands at local index \<^verbatim>\<open>data.length\<close>.
\<close>

definition nextAbs :: "'a IMUBuffer \<Rightarrow> nat" where
  "nextAbs b = absIndex b (length (data b))"

text \<open>
  A run of pushes in which every sample is stored together with the absolute index
  it is given when it is pushed: \<open>pushRun\<close> is the buffer after the run, \<open>stamps\<close>
  the absolute indices handed out, in push order.
\<close>

fun pushRun :: "(nat \<times> 'a) IMUBuffer \<Rightarrow> 'a list \<Rightarrow> (nat \<times> 'a) IMUBuffer" where
  "pushRun b [] = b"
| "pushRun b (x # xs) = pushRun (push b (nextAbs b, x)) xs"

fun stamps :: "(nat \<times> 'a) IMUBuffer \<Rightarrow> 'a list \<Rightarrow> nat list" where
  "stamps b [] = []"
| "stamps b (x # xs) = nextAbs b # stamps (push b (nextAbs b, x)) xs"

text \<open>Every stored sample sits at the absolute index it carries.\<close>

definition stamped :: "(nat \<times> 'a) IMUBuffer \<Rightarrow> bool" where
  "stamped b = (\<forall>i < length (data b). fst (data b ! i) = absIndex b i)"

subsection \<open>Numbers that may be infinite or undefined\<close>

text \<open>
  The value of a JavaScript expression in which \<^verbatim>\<open>Infinity\<close> can occur:
  a finite number, \<^verbatim>\<open>+Infinity\<close>, \<^verbatim>\<open>-Infinity\<close> or \<^verbatim>\<open>NaN\<close>, with
  the arithmetic and the comparisons of IEEE 754 on these values (a comparison with
  \<^verbatim>\<open>NaN\<close> is false; \<^verbatim>\<open>Infinity - Infinity\<close> is \<^verbatim>\<open>NaN\<close>).
\<close>

datatype xnum = Num real | PosInf | NegInf | NaN

fun xneg :: "xnum \<Rightarrow> xnum" where
  "xneg (Num a) = Num (- a)"
| "xneg PosInf = NegInf"
| "xneg NegInf = PosInf"
| "xneg NaN = NaN"

fun xadd :: "xnum \<Rightarrow> xnum \<Rightarrow> xnum" where
  "xadd NaN _ = NaN"
| "xadd _ NaN = NaN"
| "xadd (Num a) (Num b) = Num (a + b)"
| "xadd PosInf NegInf = NaN"
| "xadd NegInf PosInf = NaN"
| "xadd PosInf _ = PosInf"
| "xadd _ PosInf = PosInf"
| "xadd NegInf _ = NegInf"
| "xadd _ NegInf = NegInf"

definition xsub :: "xnum \<Rightarrow> xnum \<Rightarrow> xnum" where
  "xsub a b = xadd a (xneg b)"

fun xlt :: "xnum \<Rightarrow> xnum \<Rightarrow> bool" where
  "xlt NaN _ = False"
| "xlt _ NaN = False"
| "xlt (Num a) (Num b) = (a < b)"
| "xlt _ NegInf = False"
| "xlt NegInf _ = True"
| "xlt PosInf _ = False"
| "xlt _ PosInf = True"

fun xle :: "xnum \<Rightarrow> xnum \<Rightarrow> bool" where
  "xle NaN _ = False"
| "xle _ NaN = False"
| "xle (Num a) (Num b) = (a \<le> b)"
| "xle NegInf _ = True"
| "xle _ PosInf = True"
| "xle _ NegInf = False"
| "xle PosInf _ = False"

text \<open>\<^verbatim>\<open>Math.min\<close> of two values: \<^verbatim>\<open>NaN\<close> when either is.\<close>

definition xmin :: "xnum \<Rightarrow> xnum \<Rightarrow> xnum" where
  "xmin a b = (if a = NaN \<or> b = NaN then NaN else if xle a b then a else b)"

text \<open>Division by a positive finite constant.\<close>

fun xdiv :: "xnum \<Rightarrow> real \<Rightarrow> xnum" where
  "xdiv (Num a) c = Num (a / c)"
| "xdiv v c = v"

text \<open>
  \<^verbatim>\<open>v || d\<close> on an optional number: the default replaces a missing value and a
  zero (both are falsy).
\<close>

definition or_else :: "'a::zero option \<Rightarrow> 'a \<Rightarrow> 'a" where
  "or_else v d = (case v of None \<Rightarrow> d | Some x \<Rightarrow> if x = 0 then d else x)"

text \<open>\<^verbatim>\<open>xs.slice(s, e)\<close> for indices that are not negative.\<close>

definition slice :: "'a list \<Rightarrow> nat \<Rightarrow> nat \<Rightarrow> 'a list" where
  "slice xs s e = take (e - s) (drop s xs)"

text \<open>
  The idiom \<^verbatim>\<open>xs.reduce((a, b) => a + b, 0) / xs.length\<close> and
  \<^verbatim>\<open>xs.reduce((a, v) => a + (v - mean) ** 2, 0) / xs.length\<close>, which the source
  writes out at every use.
\<close>

definition mean_of :: "real list \<Rightarrow> real" where
  "mean_of xs = foldl (+) 0 xs / real (length xs)"

definition variance_of :: "real list \<Rightarrow> real \<Rightarrow> real" where
  "variance_of xs m = foldl (\<lambda>a v. a + (v - m)\<^sup>2) 0 xs / real (length xs)"

subsection \<open>Movement detector\<close>

definition MOVEMENT_WINDOW :: nat where "MOVEMENT_WINDOW = 20"
definition MOVEMENT_THRESHOLD :: real where "MOVEMENT_THRESHOLD = 0.8"
definition MOVEMENT_HYSTERESIS_MS :: real where "MOVEMENT_HYSTERESIS_MS = 800"

record MovementDetector =
  window :: "real list"
  isMoving :: bool
  lastTransitionTime :: real
  intensity :: real

definition new_MovementDetector :: MovementDetector where
  "new_MovementDetector =
     \<lparr>window = [], isMoving = False, lastTransitionTime = 0, intensity = 0\<rparr>"

text \<open>
  The standard deviation that \<^verbatim>\<open>processSample\<close> computes over the window once the
  new value is in it (and the oldest value is out, when there were already 20).
\<close>

definition window_after :: "MovementDetector \<Rightarrow> real \<Rightarrow> real list" where
  "window_after md a =
     (let w = window md @ [a] in if length w > MOVEMENT_WINDOW then tl w else w)"

definition window_std :: "real list \<Rightarrow> real" where
  "window_std w = sqrt (variance_of w (mean_of w))"

text \<open>
  \<^verbatim>\<open>MovementDetector.processSample(aMag, t)\<close>: the returned flag and the detector
  after the call.
\<close>

definition MovementDetector_processSample ::
  "MovementDetector \<Rightarrow> real \<Rightarrow> real \<Rightarrow> bool \<times> MovementDetector" where
  "MovementDetector_processSample md a now =
     (let md1 = md\<lparr>window := window_after md a\<rparr>
      in if length (window md1) < MOVEMENT_WINDOW then (isMoving md1, md1)
         else
           let sd = window_std (window md1);
               md2 = md1\<lparr>intensity := max 0 (min 1 ((sd - 0.3) / 1.5))\<rparr>;
               nowMoving = (sd > MOVEMENT_THRESHOLD);
               md3 =
                 (if nowMoving \<noteq> isMoving md2 then
                    (if nowMoving
                     then md2\<lparr>isMoving := True, lastTransitionTime := now\<rparr>
                     else if now - lastTransitionTime md2 > MOVEMENT_HYSTERESIS_MS
                          then md2\<lparr>isMoving := False, lastTransitionTime := now\<rparr>
                          else md2)
                  else md2\<lparr>lastTransitionTime := now\<rparr>)
           in (isMoving md3, md3))"

definition MovementDetector_reset :: "MovementDetector \<Rightarrow> MovementDetector" where
  "MovementDetector_reset md =
     md\<lparr>window := [], isMoving := False, lastTransitionTime := 0, intensity := 0\<rparr>"

text \<open>
  Feeding a sequence of \<open>(aMag, t)\<close> readings to the detector, one call each.
\<close>

fun MovementDetector_run ::
  "MovementDetector \<Rightarrow> (real \<times> real) list \<Rightarrow> MovementDetector" where
  "MovementDetector_run md [] = md"
| "MovementDetector_run md ((a, now) # rest) =
     MovementDetector_run (snd (MovementDetector_processSample md a now)) rest"

subsection \<open>IMU samples\<close>

text \<open>
  Of an IMU sample \<^verbatim>\<open>{t, tRel, ax, ay, az, aMag, gx, gy, gz, moving}\<close> the engine
  reads the two timestamps, the acceleration magnitude and the three gyroscope rates;
  the timestamps and the rates may be missing.
\<close>

record sample =
  t :: "real option"
  tRel :: "real option"
  aMag :: real
  gx :: "real option"
  gy :: "real option"
  gz :: "real option"

subsection \<open>Multi-detector consensus\<close>

text \<open>
  What a voting method returns. The display strings \<^verbatim>\<open>name\<close> and \<^verbatim>\<open>detail\<close>
  are left out; the one effect of building them that is kept is the
  \<^verbatim>\<open>TypeError\<close> of \<^verbatim>\<open>dipVal.toFixed(1)\<close> when \<^verbatim>\<open>aMags[dipIdx]\<close> is
  \<^verbatim>\<open>undefined\<close>. The peak index is inside the signal at every call the detector
  makes; the methods are modelled for such peak indices. Where a method divides by
  \<^verbatim>\<open>sigma + 2\<close> or \<^verbatim>\<open>sigma + 3\<close>, a configured \<^verbatim>\<open>sigma\<close> of \<open>-2\<close> or \<open>-3\<close>
  gives a confidence that is not finite in JavaScript; the votes are not affected.
\<close>

datatype error = TypeError

record method_result =
  vote :: bool
  m_confidence :: real

record ws_opts =
  windowSize :: "nat option"
  ws_sigma :: "real option"

record er_opts =
  shortWindow :: "nat option"
  longWindow :: "nat option"
  er_sigma :: "real option"

record dd_opts =
  maxDip :: "real option"

record pp_opts =
  neighborhood :: "nat option"
  minProminence :: "real option"

record consensus_opts =
  opt_windowSigma :: "ws_opts option"
  opt_envelopeRatio :: "er_opts option"
  opt_dipDepth :: "dd_opts option"
  opt_peakProminence :: "pp_opts option"
  minVotes :: "real option"

text \<open>The empty options object \<^verbatim>\<open>{}\<close>.\<close>

definition no_opts :: consensus_opts where
  "no_opts = \<lparr>opt_windowSigma = None, opt_envelopeRatio = None, opt_dipDepth = None,
     opt_peakProminence = None, minVotes = None\<rparr>"

record consensus_result =
  isShot :: bool
  votes :: nat
  total :: nat
  confidence :: real
  methods :: "method_result list"

text \<open>Method 1: z-score of the peak in a window centred on it.\<close>

definition windowSigma :: "real list \<Rightarrow> nat \<Rightarrow> ws_opts option \<Rightarrow> method_result" where
  "windowSigma aMags peakIdx opts =
     (let wsz = or_else (case opts of None \<Rightarrow> None | Some ob \<Rightarrow> windowSize ob) 200;
          sigma = or_else (case opts of None \<Rightarrow> None | Some ob \<Rightarrow> ws_sigma ob) 4;
          halfW = wsz div 2;
          start = peakIdx - halfW;
          stop = min (length aMags) (peakIdx + halfW);
          sl = slice aMags start stop
      in if length sl < 40 then \<lparr>vote = False, m_confidence = 0\<rparr>
         else
           let mn = mean_of sl;
               sd = sqrt (variance_of sl mn);
               zScore = (aMags ! peakIdx - mn) / (if sd = 0 then 1 else sd);
               pass = (zScore > sigma)
           in \<lparr>vote = pass, m_confidence = min 1 (zScore / (sigma + 2))\<rparr>)"

text \<open>
  Method 2: range of a short window at the peak against the standard deviation of a
  long window before it.
\<close>

definition envelopeRatio :: "real list \<Rightarrow> nat \<Rightarrow> er_opts option \<Rightarrow> method_result" where
  "envelopeRatio aMags peakIdx opts =
     (let shortW = or_else (case opts of None \<Rightarrow> None | Some ob \<Rightarrow> shortWindow ob) 50;
          longW = or_else (case opts of None \<Rightarrow> None | Some ob \<Rightarrow> longWindow ob) 200;
          sigma = or_else (case opts of None \<Rightarrow> None | Some ob \<Rightarrow> er_sigma ob) 4;
          sStart = peakIdx - shortW div 2;
          sEnd = min (length aMags) (sStart + shortW);
          shortSlice = slice aMags sStart sEnd
      in if length shortSlice < 10 then \<lparr>vote = False, m_confidence = 0\<rparr>
         else
           let lEnd = peakIdx - shortW div 2;
               lStart = lEnd - longW;
               longSlice = slice aMags lStart lEnd
           in if length longSlice < 20 then \<lparr>vote = False, m_confidence = 0\<rparr>
              else
                let shortMax = Max (set shortSlice);
                    shortMin = Min (set shortSlice);
                    shortRange = shortMax - shortMin;
                    longMean = mean_of longSlice;
                    longStd = sqrt (variance_of longSlice longMean);
                    ratio = (if longStd > 0 then shortRange / longStd else shortRange);
                    pass = (ratio > sigma)
                in \<lparr>vote = pass, m_confidence = min 1 (ratio / (sigma + 3))\<rparr>)"

text \<open>Method 3: the dip must come close to free fall.\<close>

definition dipDepth ::
  "real list \<Rightarrow> nat \<Rightarrow> nat \<Rightarrow> dd_opts option \<Rightarrow> error + method_result" where
  "dipDepth aMags peakIdx dipIdx opts =
     (let maxDipForShot = or_else (case opts of None \<Rightarrow> None | Some ob \<Rightarrow> maxDip ob) 5
      in if dipIdx < length aMags
         then
           let dipVal = aMags ! dipIdx;
               pass = (dipVal < maxDipForShot)
           in Inr \<lparr>vote = pass,
                   m_confidence =
                     (if pass then min 1 ((maxDipForShot - dipVal) / maxDipForShot) else 0)\<rparr>
         else Inl TypeError)"

text \<open>Method 4: the peak must stand out from the lowest valley on either side.\<close>

definition peakProminence :: "real list \<Rightarrow> nat \<Rightarrow> pp_opts option \<Rightarrow> method_result" where
  "peakProminence aMags peakIdx opts =
     (let neighborhoodSize =
            or_else (case opts of None \<Rightarrow> None | Some ob \<Rightarrow> neighborhood ob) 100;
          minProm = or_else (case opts of None \<Rightarrow> None | Some ob \<Rightarrow> minProminence ob) 5;
          start = peakIdx - neighborhoodSize;
          stop = min (length aMags) (peakIdx + neighborhoodSize);
          leftMin = fold (\<lambda>j m. if aMags ! j < m then aMags ! j else m)
                      (rev [start ..< peakIdx]) (aMags ! peakIdx);
          rightMin = fold (\<lambda>j m. if aMags ! j < m then aMags ! j else m)
                       [peakIdx + 1 ..< stop] (aMags ! peakIdx);
          prominence = aMags ! peakIdx - max leftMin rightMin;
          pass = (prominence > minProm)
      in \<lparr>vote = pass, m_confidence = min 1 (prominence / (minProm * 2))\<rparr>)"

text \<open>
  The aggregation at the end of \<^verbatim>\<open>evaluate\<close>: count the true votes and compare
  with \<^verbatim>\<open>opts.minVotes || 3\<close>.
\<close>

definition tally :: "method_result list \<Rightarrow> consensus_opts \<Rightarrow> consensus_result" where
  "tally ms opts =
     (let nvotes = length (filter vote ms);
          ntotal = length ms;
          minV = or_else (minVotes opts) 3
      in \<lparr>isShot = (real nvotes \<ge> minV), votes = nvotes, total = ntotal,
          confidence = real nvotes / real ntotal, methods = ms\<rparr>)"

definition evaluate ::
  "real list \<Rightarrow> nat \<Rightarrow> nat \<Rightarrow> nat \<Rightarrow> consensus_opts \<Rightarrow> error + consensus_result" where
  "evaluate aMags peakIdx dipIdx recIdx opts =
     (case dipDepth aMags peakIdx dipIdx (opt_dipDepth opts) of
        Inl e \<Rightarrow> Inl e
      | Inr dd \<Rightarrow>
          Inr (tally
                 [windowSigma aMags peakIdx (opt_windowSigma opts),
                  envelopeRatio aMags peakIdx (opt_envelopeRatio opts),
                  dd,
                  peakProminence aMags peakIdx (opt_peakProminence opts)]
                 opts))"

subsection \<open>Numbers of the profile statistics\<close>

text \<open>
  The numbers of the source are IEEE 754 doubles. The gates of the detector compare
  them, and are read here in exact arithmetic. The statistics of a calibration
  profile are different: \<^verbatim>\<open>classify\<close> tests a stored \<^verbatim>\<open>std\<close> against 0, so whether a
  sum and a quotient come out exactly matters, and \<^verbatim>\<open>computeProfile\<close> is embedded
  with the rounding of every operation. A finite double is a real number
  \<open>m \<sqdot> 2\<^sup>e\<close> with \<open>\<bar>m\<bar> < 2\<^sup>5\<^sup>3\<close> and \<open>e \<ge> -1074\<close>; \<open>+\<close>, \<open>-\<close>, \<open>*\<close>, \<open>/\<close> and
  \<^verbatim>\<open>Math.sqrt\<close> return the double nearest to the exact result, ties to the even
  significand. Results of magnitude \<open>2\<^sup>1\<^sup>0\<^sup>2\<^sup>4\<close> or more, which are \<^verbatim>\<open>Infinity\<close> in the
  source, are outside this model.
\<close>

text \<open>The number of binary digits of a natural number.\<close>

fun bit_length :: "nat \<Rightarrow> nat" where
  "bit_length n = (if n = 0 then 0 else Suc (bit_length (n div 2)))"

declare bit_length.simps [simp del]

text \<open>The binary exponent of a number other than 0: \<open>2\<^sup>e \<le> \<bar>x\<bar> < 2\<^sup>e\<^sup>+\<^sup>1\<close>.\<close>

definition expo :: "real \<Rightarrow> int" where
  "expo x =
     (let a = \<bar>x\<bar>
      in if 1 \<le> a then int (bit_length (nat \<lfloor>a\<rfloor>)) - 1
         else
           let k = int (bit_length (nat \<lfloor>1 / a\<rfloor>)) - 1
           in if a * 2 powi k = 1 then - k else - k - 1)"

text \<open>The integer nearest to \<open>x\<close>, the even one of two that are equally near.\<close>

definition round_even :: "real \<Rightarrow> int" where
  "round_even x =
     (let f = \<lfloor>x\<rfloor>; r = x - of_int f
      in if r < 1 / 2 then f else if r > 1 / 2 then f + 1
         else if even f then f else f + 1)"

text \<open>
  The spacing of the doubles around \<open>x\<close> (53 significant bits; below \<open>2\<^sup>-\<^sup>1\<^sup>0\<^sup>2\<^sup>2\<close> the
  spacing stays \<open>2\<^sup>-\<^sup>1\<^sup>0\<^sup>7\<^sup>4\<close>), and the double nearest to \<open>x\<close>.
\<close>

definition ulp :: "real \<Rightarrow> real" where
  "ulp x = 2 powi (max (expo x) (- 1022) - 52)"

definition rnd :: "real \<Rightarrow> real" where
  "rnd x = of_int (round_even (x / ulp x)) * ulp x"

text \<open>The four arithmetic operations of the source on doubles.\<close>

definition fadd :: "real \<Rightarrow> real \<Rightarrow> real" where "fadd a b = rnd (a + b)"
definition fsub :: "real \<Rightarrow> real \<Rightarrow> real" where "fsub a b = rnd (a - b)"
definition fmul :: "real \<Rightarrow> real \<Rightarrow> real" where "fmul a b = rnd (a * b)"
definition fdiv :: "real \<Rightarrow> real \<Rightarrow> real" where "fdiv a b = rnd (a / b)"

text \<open>
  The integer square root, bit by bit from the top, and \<^verbatim>\<open>Math.sqrt\<close> of a double that
  is not negative: the significand of the root is the integer square root of the
  scaled argument, rounded up when the argument is beyond the midpoint to the next
  significand. (\<^verbatim>\<open>Math.sqrt\<close> of a negative number is \<^verbatim>\<open>NaN\<close>; a variance is never
  negative.)
\<close>

fun sqrt_bits :: "nat \<Rightarrow> nat \<Rightarrow> nat \<Rightarrow> nat" where
  "sqrt_bits n k r =
     (if k = 0 then (if (r + 1) * (r + 1) \<le> n then r + 1 else r)
      else sqrt_bits n (k - 1) (if (r + 2 ^ k) * (r + 2 ^ k) \<le> n then r + 2 ^ k else r))"

declare sqrt_bits.simps [simp del]

definition isqrt :: "nat \<Rightarrow> nat" where
  "isqrt n = sqrt_bits n (bit_length n div 2) 0"

definition fsqrt :: "real \<Rightarrow> real" where
  "fsqrt x =
     (if x \<le> 0 then 0
      else
        let u = 2 powi (expo x div 2 - 52);
            m = int (isqrt (nat \<lfloor>x / (u * u)\<rfloor>));
            h = (of_int m + 1 / 2) * u
        in if x < h * h \<or> (x = h * h \<and> even m) then of_int m * u
           else (of_int m + 1) * u)"

text \<open>A real number that is a finite double.\<close>

definition finite_double :: "real \<Rightarrow> bool" where
  "finite_double x \<longleftrightarrow> rnd x = x \<and> \<bar>x\<bar> < 2 ^ 1024"

subsection \<open>Motion calibrator\<close>

datatype feature =
    PeakMag | DipMag | RecoveryMag | Range | DipRatio
  | PeakToDipSamples | DipToRecSamples | TotalDuration
  | GyroMagAtPeak | GyroMagAtDip | MaxGyroInWindow | GyroDipToRec

text \<open>
  A feature vector is an object with a number under each feature key; a key may be
  missing (or hold \<^verbatim>\<open>NaN\<close>), as in the \<^verbatim>\<open>{}\<close> that the tests classify.
\<close>

type_synonym features = "feature \<Rightarrow> real option"

definition featureKeys :: "feature list" where
  "featureKeys =
     [PeakMag, DipMag, RecoveryMag, Range, DipRatio,
      PeakToDipSamples, DipToRecSamples, TotalDuration,
      GyroMagAtPeak, GyroMagAtDip, MaxGyroInWindow, GyroDipToRec]"

record stats =
  mean :: real
  std :: real

record feature_stat = stats +
  min_v :: real
  max_v :: real

record profile =
  count :: nat
  stat :: "feature \<Rightarrow> feature_stat option"

datatype activity = Walking | Running | Dribbling | Shooting

record profiles =
  walking :: "profile option"
  running :: "profile option"
  dribbling :: "profile option"
  shooting :: "profile option"

text \<open>
  A calibration set. \<^verbatim>\<open>classify\<close> reads its \<^verbatim>\<open>profiles\<close> only (not the
  timestamp or the pattern counts); the object \<^verbatim>\<open>{}\<close> has none.
\<close>

record calibration =
  profiles :: "profiles option"

definition profile_of :: "profiles \<Rightarrow> activity \<Rightarrow> profile option" where
  "profile_of ps label =
     (case label of Walking \<Rightarrow> walking ps | Running \<Rightarrow> running ps
      | Dribbling \<Rightarrow> dribbling ps | Shooting \<Rightarrow> shooting ps)"

text \<open>\<^verbatim>\<open>gyroMag\<close>: a missing rate counts as 0.\<close>

definition gyroMag :: "sample \<Rightarrow> real" where
  "gyroMag s =
     (let x = or_else (gx s) 0; y = or_else (gy s) 0; z = or_else (gz s) 0
      in sqrt (x * x + y * y + z * z))"

definition extractFeatures ::
  "sample list \<Rightarrow> nat \<Rightarrow> nat \<Rightarrow> nat \<Rightarrow> real \<Rightarrow> features option" where
  "extractFeatures imuData peakIdx dipIdx recIdx baselineMean =
     (if dipIdx \<ge> length imuData \<or> recIdx \<ge> length imuData then None
      else if peakIdx \<ge> length imuData then None
      else
        let peakSample = imuData ! peakIdx;
            dipSample = imuData ! dipIdx;
            recSample = imuData ! recIdx;
            peakMag = aMag peakSample;
            dipMag = aMag dipSample;
            recoveryMag = aMag recSample;
            rng = peakMag - dipMag;
            dipRatio = (if baselineMean > 0 then dipMag / baselineMean else 1);
            peakToDipSamples = real_of_int (int dipIdx - int peakIdx);
            dipToRecSamples = real_of_int (int recIdx - int dipIdx);
            totalDuration = real_of_int (int recIdx - int peakIdx);
            gyroMagAtPeak = gyroMag peakSample;
            gyroMagAtDip = gyroMag dipSample;
            winStart = peakIdx - 5;
            winEnd = min (length imuData - 1) (recIdx + 5);
            maxGyroInWindow =
              fold (\<lambda>j m. let g = gyroMag (imuData ! j) in if g > m then g else m)
                [winStart ..< winEnd + 1] 0;
            gyroSum = fold (\<lambda>j a. a + gyroMag (imuData ! j)) [dipIdx ..< recIdx + 1] 0;
            gyroCount = length [dipIdx ..< recIdx + 1];
            gyroDipToRec = (if gyroCount > 0 then gyroSum / real gyroCount else 0)
        in Some (\<lambda>key. Some (case key of
                   PeakMag \<Rightarrow> peakMag | DipMag \<Rightarrow> dipMag | RecoveryMag \<Rightarrow> recoveryMag
                 | Range \<Rightarrow> rng | DipRatio \<Rightarrow> dipRatio
                 | PeakToDipSamples \<Rightarrow> peakToDipSamples
                 | DipToRecSamples \<Rightarrow> dipToRecSamples
                 | TotalDuration \<Rightarrow> totalDuration
                 | GyroMagAtPeak \<Rightarrow> gyroMagAtPeak | GyroMagAtDip \<Rightarrow> gyroMagAtDip
                 | MaxGyroInWindow \<Rightarrow> maxGyroInWindow
                 | GyroDipToRec \<Rightarrow> gyroDipToRec)))"

text \<open>
  The statistics of one feature over the patterns: values that are missing or
  \<^verbatim>\<open>NaN\<close> are filtered out, and a feature without values gets zeros. The two
  \<^verbatim>\<open>reduce\<close> loops, the divisions and the square root are those of the source, each
  operation rounded to a double; \<^verbatim>\<open>(v - mean) ** 2\<close> is taken as the rounded product.
\<close>

definition feature_stat_of :: "features list \<Rightarrow> feature \<Rightarrow> feature_stat" where
  "feature_stat_of patterns key =
     (let vals = List.map_filter (\<lambda>p. p key) patterns
      in if length vals = 0 then \<lparr>mean = 0, std = 0, min_v = 0, max_v = 0\<rparr>
         else
           let mn = fdiv (foldl (\<lambda>a b. fadd a b) 0 vals) (real (length vals));
               variance =
                 fdiv (foldl (\<lambda>a v. fadd a (fmul (fsub v mn) (fsub v mn))) 0 vals)
                   (real (length vals))
           in \<lparr>mean = mn, std = fsqrt variance,
               min_v = Min (set vals), max_v = Max (set vals)\<rparr>)"

text \<open>
  \<^verbatim>\<open>computeProfile(patterns)\<close>; the argument \<open>None\<close> is a missing pattern list
  (\<^verbatim>\<open>null\<close> or \<^verbatim>\<open>undefined\<close>), the result \<open>None\<close> is \<^verbatim>\<open>null\<close>.
\<close>

definition computeProfile :: "features list option \<Rightarrow> profile option" where
  "computeProfile patterns =
     (case patterns of
        None \<Rightarrow> None
      | Some ps \<Rightarrow>
          if length ps = 0 then None
          else Some (fold (\<lambda>key pr. pr\<lparr>stat := (stat pr)(key \<mapsto> feature_stat_of ps key)\<rparr>)
                       featureKeys \<lparr>count = length ps, stat = Map.empty\<rparr>))"

text \<open>
  What \<^verbatim>\<open>classify\<close> returns. The \<^verbatim>\<open>reason\<close> string is kept as its kind and the
  activity it names, without the formatted distances.
\<close>

datatype reason =
    NoCalibration | NoShootingProfile
  | DipRatioMatches activity | CloserTo activity | ShotDistance

record classification =
  cls_isShot :: bool
  cls_confidence :: xnum
  reason :: reason

text \<open>
  Stage 1, the loop over the noise profiles: reject at the first profile whose
  \<^verbatim>\<open>dipRatio\<close> range holds a candidate above the shot range. A missing
  \<^verbatim>\<open>features.dipRatio\<close> fails both comparisons.
\<close>

fun hardReject ::
  "features \<Rightarrow> profiles \<Rightarrow> real \<Rightarrow> activity list \<Rightarrow> classification option" where
  "hardReject f ps maxShotDipRatio [] = None"
| "hardReject f ps maxShotDipRatio (label # rest) =
     (case profile_of ps label of
        None \<Rightarrow> hardReject f ps maxShotDipRatio rest
      | Some prof \<Rightarrow>
          (case stat prof DipRatio of
             None \<Rightarrow> hardReject f ps maxShotDipRatio rest
           | Some st \<Rightarrow>
               let inNoiseRange =
                     (case f DipRatio of
                        None \<Rightarrow> False
                      | Some d \<Rightarrow> d \<ge> mean st - std st \<and> d \<le> mean st + std st);
                   above = (case f DipRatio of None \<Rightarrow> False | Some d \<Rightarrow> d > maxShotDipRatio)
               in if above \<and> inNoiseRange
                  then Some \<lparr>cls_isShot = False, cls_confidence = Num 0.9,
                              reason = DipRatioMatches label\<rparr>
                  else hardReject f ps maxShotDipRatio rest))"

text \<open>The weights of stage 2, in the order of \<^verbatim>\<open>Object.keys(weights)\<close>.\<close>

definition weights :: "(feature \<times> real) list" where
  "weights =
     [(PeakMag, 1.0), (DipMag, 3.0), (DipRatio, 3.0), (RecoveryMag, 1.0), (Range, 2.0),
      (PeakToDipSamples, 0.5), (DipToRecSamples, 0.5), (TotalDuration, 0.5),
      (GyroMagAtPeak, 1.0), (GyroMagAtDip, 1.0), (MaxGyroInWindow, 1.5),
      (GyroDipToRec, 2.5)]"

text \<open>
  \<^verbatim>\<open>distTo\<close>: the weighted mean z-score; \<^verbatim>\<open>Infinity\<close> without a profile or
  without a usable feature, \<^verbatim>\<open>NaN\<close> when a feature of the candidate is missing.
\<close>

definition distStep ::
  "features \<Rightarrow> profile \<Rightarrow> feature \<times> real \<Rightarrow> xnum \<times> real \<Rightarrow> xnum \<times> real" where
  "distStep f prof kw acc =
     (case stat prof (fst kw) of
        None \<Rightarrow> acc
      | Some st \<Rightarrow>
          if std st = 0 then acc
          else
            let z = (case f (fst kw) of
                       None \<Rightarrow> NaN
                     | Some x \<Rightarrow> Num (\<bar>x - mean st\<bar> / std st * snd kw))
            in (xadd (fst acc) z, snd acc + snd kw))"

definition distTo :: "features \<Rightarrow> profile option \<Rightarrow> xnum" where
  "distTo f pr =
     (case pr of
        None \<Rightarrow> PosInf
      | Some prof \<Rightarrow>
          let acc = fold (distStep f prof) weights (Num 0, 0)
          in if snd acc > 0 then xdiv (fst acc) (snd acc) else PosInf)"

definition classify :: "features \<Rightarrow> calibration option \<Rightarrow> classification" where
  "classify f cal =
     (case (case cal of None \<Rightarrow> None | Some c \<Rightarrow> profiles c) of
        None \<Rightarrow> \<lparr>cls_isShot = True, cls_confidence = Num 0, reason = NoCalibration\<rparr>
      | Some ps \<Rightarrow>
          (case shooting ps of
             None \<Rightarrow> \<lparr>cls_isShot = True, cls_confidence = Num 0, reason = NoShootingProfile\<rparr>
           | Some shootProf \<Rightarrow>
               (case (case stat shootProf DipRatio of
                        None \<Rightarrow> None
                      | Some st \<Rightarrow>
                          if std st > 0
                          then hardReject f ps (mean st + 2 * std st)
                                 [Walking, Running, Dribbling]
                          else None) of
                  Some rejected \<Rightarrow> rejected
                | None \<Rightarrow>
                    let shootDist = distTo f (Some shootProf);
                        walkDist = distTo f (walking ps);
                        runDist = distTo f (running ps);
                        dribbleDist = distTo f (dribbling ps);
                        minNoiseDist = xmin (xmin walkDist runDist) dribbleDist;
                        margin = 0.5
                    in if xlt (xadd minNoiseDist (Num margin)) shootDist
                       then
                         let closestNoise =
                               (if xle walkDist runDist \<and> xle walkDist dribbleDist then Walking
                                else if xle runDist dribbleDist then Running else Dribbling)
                         in \<lparr>cls_isShot = False,
                             cls_confidence =
                               xmin (Num 1) (xdiv (xsub shootDist minNoiseDist) 3),
                             reason = CloserTo closestNoise\<rparr>
                       else \<lparr>cls_isShot = True,
                             cls_confidence =
                               xmin (Num 1)
                                 (xdiv (xadd (xsub minNoiseDist shootDist) (Num margin)) 3),
                             reason = ShotDistance\<rparr>)))"

subsection \<open>Shot detector\<close>

definition PEAK_SIGMA :: real where "PEAK_SIGMA = 2.5"
definition DIP_SIGMA :: real where "DIP_SIGMA = 1.5"
definition RECOVERY_SIGMA :: real where "RECOVERY_SIGMA = 1.0"
definition PEAK_TO_DIP_SIGMA :: real where "PEAK_TO_DIP_SIGMA = 5.0"
definition MIN_PEAK_ABS :: real where "MIN_PEAK_ABS = 14"
definition MAX_DIP_ABS :: real where "MAX_DIP_ABS = 6"
definition MIN_RISE_FROM_DIP :: real where "MIN_RISE_FROM_DIP = 5"
definition MIN_PEAK_TO_DIP_ABS :: real where "MIN_PEAK_TO_DIP_ABS = 8"
definition BASELINE_WINDOW :: nat where "BASELINE_WINDOW = 80"
definition BASELINE_OFFSET :: nat where "BASELINE_OFFSET = 20"
definition DIP_SEARCH_WINDOW :: nat where "DIP_SEARCH_WINDOW = 35"
definition RECOVERY_SEARCH_WINDOW :: nat where "RECOVERY_SEARCH_WINDOW = 30"
definition SCAN_START_OFFSET :: nat where "SCAN_START_OFFSET = 90"
definition SCAN_END_OFFSET :: nat where "SCAN_END_OFFSET = 50"
definition MIN_SHOT_INTERVAL_MS :: real where "MIN_SHOT_INTERVAL_MS = 1200"
definition MIN_SHOT_SAMPLES :: real where "MIN_SHOT_SAMPLES = 60"
definition MAX_EFFECTIVE_STD :: real where "MAX_EFFECTIVE_STD = 1.5"

text \<open>
  The detector object. \<^verbatim>\<open>lastShotIdx\<close> starts as \<^verbatim>\<open>-Infinity\<close>;
  \<^verbatim>\<open>calibration\<close> is \<^verbatim>\<open>null\<close> or a calibration set.
\<close>

record ShotDetector =
  lastShotTime :: real
  lastShotIdx :: xnum
  calibration :: "calibration option"
  useConsensus :: bool
  consensusOpts :: consensus_opts

definition new_ShotDetector :: ShotDetector where
  "new_ShotDetector =
     \<lparr>lastShotTime = 0, lastShotIdx = NegInf, calibration = None,
      useConsensus = False, consensusOpts = no_opts\<rparr>"

definition ShotDetector_reset :: "ShotDetector \<Rightarrow> ShotDetector" where
  "ShotDetector_reset det = det\<lparr>lastShotTime := 0, lastShotIdx := NegInf\<rparr>"

text \<open>
  A shot record. Batch mode fills \<open>idx\<close> with the index into the array and copies the
  sample's \<^verbatim>\<open>t\<close> and \<^verbatim>\<open>tRel\<close>; live mode fills \<open>idx\<close> with the absolute index,
  \<open>bufferIdx\<close> with the index into the buffer and \<^verbatim>\<open>t\<close> with the current time.
\<close>

record shot =
  idx :: nat
  bufferIdx :: "nat option"
  mag :: real
  dipMag :: real
  recoveryMag :: real
  shot_range :: real
  shot_t :: "real option"
  shot_tRel :: "real option"
  consensus :: "consensus_result option"
  calibResult :: "classification option"

text \<open>\<^verbatim>\<open>_baseline(aMags, endIdx)\<close>: \<open>None\<close> is \<^verbatim>\<open>null\<close>.\<close>

definition baseline :: "real list \<Rightarrow> nat \<Rightarrow> stats option" where
  "baseline aMags endIdx =
     (let start = endIdx - BASELINE_WINDOW;
          sl = slice aMags start endIdx
      in if length sl < 10 then None
         else
           let mn = mean_of sl;
               variance = variance_of sl mn
           in Some \<lparr>mean = mn, std = sqrt variance\<rparr>)"

text \<open>
  The dip search \<^verbatim>\<open>for (j = i + 1; j < dipEnd; j++) if (aMags[j] < aMags[dipIdx]) dipIdx = j\<close>
  from \<^verbatim>\<open>dipIdx = i + 1\<close>, and the recovery search with \<^verbatim>\<open>>\<close> from
  \<^verbatim>\<open>recIdx = dipIdx + 1\<close>.
\<close>

definition findDip :: "real list \<Rightarrow> nat \<Rightarrow> nat \<Rightarrow> nat" where
  "findDip aMags i dipEnd =
     fold (\<lambda>j dipIdx. if aMags ! j < aMags ! dipIdx then j else dipIdx)
       [i + 1 ..< dipEnd] (i + 1)"

definition findRec :: "real list \<Rightarrow> nat \<Rightarrow> nat \<Rightarrow> nat" where
  "findRec aMags dipIdx recEnd =
     fold (\<lambda>j recIdx. if aMags ! j > aMags ! recIdx then j else recIdx)
       [dipIdx + 1 ..< recEnd] (dipIdx + 1)"

text \<open>
  The two post-filters, as both modes apply them once the three phases have passed:
  the consensus result (\<^verbatim>\<open>null\<close> when consensus is off) and the calibration result
  (\<^verbatim>\<open>null\<close> without a calibration or without features).
\<close>

definition consensusFilter ::
  "ShotDetector \<Rightarrow> real list \<Rightarrow> nat \<Rightarrow> nat \<Rightarrow> nat \<Rightarrow> error + consensus_result option" where
  "consensusFilter det aMags i dipIdx recIdx =
     (if useConsensus det
      then (case evaluate aMags i dipIdx recIdx (consensusOpts det) of
              Inl e \<Rightarrow> Inl e
            | Inr c \<Rightarrow> Inr (Some c))
      else Inr None)"

definition calibrationFilter ::
  "ShotDetector \<Rightarrow> sample list \<Rightarrow> nat \<Rightarrow> nat \<Rightarrow> nat \<Rightarrow> real \<Rightarrow> classification option" where
  "calibrationFilter det imuData i dipIdx recIdx baseMean =
     (case calibration det of
        None \<Rightarrow> None
      | Some cal \<Rightarrow>
          (case extractFeatures imuData i dipIdx recIdx baseMean of
             None \<Rightarrow> None
           | Some f \<Rightarrow> Some (classify f (Some cal))))"

text \<open>
  Batch mode. One pass of the loop body of \<^verbatim>\<open>detectAll\<close> at index \<open>i\<close>, on the
  loop state \<open>(shots, lastIdx, lastTime)\<close>; every \<^verbatim>\<open>continue\<close> returns the state
  as it is.
\<close>

type_synonym batch_state = "shot list \<times> xnum \<times> real"

definition detectAll_body ::
  "ShotDetector \<Rightarrow> sample list \<Rightarrow> real list \<Rightarrow> nat \<Rightarrow> batch_state \<Rightarrow> error + batch_state" where
  "detectAll_body det imuData aMags i st =
     (let shots = fst st; lastIdx = fst (snd st); lastTime = snd (snd st)
      in
      if aMags ! i \<le> aMags ! (i - 1) \<or> aMags ! i < aMags ! (i + 1) then Inr st
      else
        let baseEnd = i - BASELINE_OFFSET in
        case baseline aMags baseEnd of
          None \<Rightarrow> Inr st
        | Some base \<Rightarrow>
            let effStd = min (std base) MAX_EFFECTIVE_STD;
                peakThreshold = mean base + PEAK_SIGMA * effStd
            in
            if aMags ! i < peakThreshold \<or> aMags ! i < MIN_PEAK_ABS then Inr st
            else if xlt (xsub (Num (real i)) lastIdx) (Num MIN_SHOT_SAMPLES) then Inr st
            else
              let sampleTime = or_else (t (imuData ! i)) (or_else (tRel (imuData ! i)) 0)
              in
              if sampleTime - lastTime < MIN_SHOT_INTERVAL_MS \<and> lastTime > 0 then Inr st
              else
                let dipEnd = min (length aMags) (i + DIP_SEARCH_WINDOW);
                    dipIdx = findDip aMags i dipEnd;
                    dipThreshold = mean base - DIP_SIGMA * std base
                in
                if aMags ! dipIdx > dipThreshold \<or> aMags ! dipIdx > MAX_DIP_ABS then Inr st
                else
                  let peakToDipRange = aMags ! i - aMags ! dipIdx;
                      minRange = max MIN_PEAK_TO_DIP_ABS (effStd * PEAK_TO_DIP_SIGMA)
                  in
                  if peakToDipRange < minRange then Inr st
                  else
                    let recEnd = min (length aMags) (dipIdx + RECOVERY_SEARCH_WINDOW) in
                    if dipIdx + 1 \<ge> recEnd then Inr st
                    else
                      let recIdx = findRec aMags dipIdx recEnd;
                          recThreshold = mean base + RECOVERY_SIGMA * effStd;
                          riseFromDip = aMags ! recIdx - aMags ! dipIdx
                      in
                      if aMags ! recIdx < recThreshold \<or> riseFromDip < MIN_RISE_FROM_DIP
                      then Inr st
                      else
                        (case consensusFilter det aMags i dipIdx recIdx of
                          Inl e \<Rightarrow> Inl e
                        | Inr cons \<Rightarrow>
                            if (case cons of Some c \<Rightarrow> \<not> isShot c | None \<Rightarrow> False)
                            then Inr st
                            else
                              let calib = calibrationFilter det imuData i dipIdx recIdx
                                            (mean base)
                              in
                              if (case calib of Some r \<Rightarrow> \<not> cls_isShot r | None \<Rightarrow> False)
                              then Inr st
                              else
                                Inr (shots @
                                       [\<lparr>idx = i, bufferIdx = None, mag = aMags ! i,
                                         dipMag = aMags ! dipIdx,
                                         recoveryMag = aMags ! recIdx,
                                         shot_range = peakToDipRange,
                                         shot_t = t (imuData ! i),
                                         shot_tRel = tRel (imuData ! i),
                                         consensus = cons, calibResult = calib\<rparr>],
                                     Num (real i), sampleTime)))"

fun detectAll_loop ::
  "ShotDetector \<Rightarrow> sample list \<Rightarrow> real list \<Rightarrow> nat list \<Rightarrow> batch_state \<Rightarrow> error + batch_state" where
  "detectAll_loop det imuData aMags [] st = Inr st"
| "detectAll_loop det imuData aMags (i # rest) st =
     (case detectAll_body det imuData aMags i st of
        Inl e \<Rightarrow> Inl e
      | Inr st' \<Rightarrow> detectAll_loop det imuData aMags rest st')"

definition detectAll :: "ShotDetector \<Rightarrow> sample list \<Rightarrow> error + shot list" where
  "detectAll det imuData =
     (let aMags = map aMag imuData
      in case detectAll_loop det imuData aMags
                [BASELINE_WINDOW + BASELINE_OFFSET ..<
                 length aMags - DIP_SEARCH_WINDOW - RECOVERY_SEARCH_WINDOW]
                ([], NegInf, 0) of
           Inl e \<Rightarrow> Inl e
         | Inr st \<Rightarrow> Inr (fst st))"

text \<open>
  Live mode. \<^verbatim>\<open>_checkCandidate(aMags, i, len, currentTime, buffer)\<close>: the shot or
  \<^verbatim>\<open>null\<close>, and the detector after the call.
\<close>

definition checkCandidate ::
  "ShotDetector \<Rightarrow> real list \<Rightarrow> nat \<Rightarrow> nat \<Rightarrow> real \<Rightarrow> sample IMUBuffer
   \<Rightarrow> error + (shot option \<times> ShotDetector)" where
  "checkCandidate det aMags i len currentTime buffer =
     (if aMags ! i \<le> aMags ! (i - 1) \<or> aMags ! i < aMags ! (i + 1) then Inr (None, det)
      else
        let baseEnd = i - BASELINE_OFFSET in
        case baseline aMags baseEnd of
          None \<Rightarrow> Inr (None, det)
        | Some base \<Rightarrow>
            let effStd = min (std base) MAX_EFFECTIVE_STD;
                peakThreshold = mean base + PEAK_SIGMA * effStd
            in
            if aMags ! i < peakThreshold \<or> aMags ! i < MIN_PEAK_ABS then Inr (None, det)
            else
              let absIdx = absIndex buffer i in
              if xlt (xsub (Num (real absIdx)) (lastShotIdx det)) (Num MIN_SHOT_SAMPLES)
              then Inr (None, det)
              else if currentTime - lastShotTime det < MIN_SHOT_INTERVAL_MS
                      \<and> lastShotTime det > 0
              then Inr (None, det)
              else
                let dipEnd = min len (i + DIP_SEARCH_WINDOW) in
                if i + 1 \<ge> dipEnd then Inr (None, det)
                else
                  let dipIdx = findDip aMags i dipEnd;
                      dipThreshold = mean base - DIP_SIGMA * std base
                  in
                  if aMags ! dipIdx > dipThreshold \<or> aMags ! dipIdx > MAX_DIP_ABS
                  then Inr (None, det)
                  else
                    let peakToDipRange = aMags ! i - aMags ! dipIdx;
                        minRange = max MIN_PEAK_TO_DIP_ABS (effStd * PEAK_TO_DIP_SIGMA)
                    in
                    if peakToDipRange < minRange then Inr (None, det)
                    else
                      let recEnd = min len (dipIdx + RECOVERY_SEARCH_WINDOW) in
                      if dipIdx + 1 \<ge> recEnd then Inr (None, det)
                      else
                        let recIdx = findRec aMags dipIdx recEnd;
                            recThreshold = mean base + RECOVERY_SIGMA * effStd;
                            riseFromDip = aMags ! recIdx - aMags ! dipIdx
                        in
                        if aMags ! recIdx < recThreshold \<or> riseFromDip < MIN_RISE_FROM_DIP
                        then Inr (None, det)
                        else
                          (case consensusFilter det aMags i dipIdx recIdx of
                            Inl e \<Rightarrow> Inl e
                          | Inr cons \<Rightarrow>
                              if (case cons of Some c \<Rightarrow> \<not> isShot c | None \<Rightarrow> False)
                              then Inr (None, det)
                              else
                                let calib = calibrationFilter det (data buffer) i dipIdx
                                              recIdx (mean base)
                                in
                                if (case calib of Some r \<Rightarrow> \<not> cls_isShot r | None \<Rightarrow> False)
                                then Inr (None, det)
                                else
                                  Inr (Some \<lparr>idx = absIdx, bufferIdx = Some i,
                                             mag = aMags ! i, dipMag = aMags ! dipIdx,
                                             recoveryMag = aMags ! recIdx,
                                             shot_range = peakToDipRange,
                                             shot_t = Some currentTime, shot_tRel = None,
                                             consensus = cons, calibResult = calib\<rparr>,
                                       det\<lparr>lastShotTime := currentTime,
                                           lastShotIdx := Num (real absIdx)\<rparr>)))"

text \<open>
  The scan loop of \<^verbatim>\<open>processSample\<close>: the first candidate that gives a shot ends
  the call; the detector is threaded through the calls of \<^verbatim>\<open>_checkCandidate\<close>.
\<close>

fun scan ::
  "ShotDetector \<Rightarrow> real list \<Rightarrow> nat \<Rightarrow> real \<Rightarrow> sample IMUBuffer \<Rightarrow> nat list
   \<Rightarrow> error + (shot option \<times> ShotDetector)" where
  "scan det aMags len currentTime buffer [] = Inr (None, det)"
| "scan det aMags len currentTime buffer (i # rest) =
     (case checkCandidate det aMags i len currentTime buffer of
        Inl e \<Rightarrow> Inl e
      | Inr r \<Rightarrow>
          (case fst r of
             Some s \<Rightarrow> Inr (Some s, snd r)
           | None \<Rightarrow> scan (snd r) aMags len currentTime buffer rest))"

definition ShotDetector_processSample ::
  "ShotDetector \<Rightarrow> sample IMUBuffer \<Rightarrow> real \<Rightarrow> error + (shot option \<times> ShotDetector)" where
  "ShotDetector_processSample det buffer currentTime =
     (let len = buf_length buffer
      in if len < SCAN_START_OFFSET + BASELINE_WINDOW + BASELINE_OFFSET then Inr (None, det)
         else
           let scanStart = len - SCAN_START_OFFSET;
               scanEnd = len - SCAN_END_OFFSET;
               aMags = map aMag (data buffer)
           in scan det aMags len currentTime buffer [scanStart ..< scanEnd])"

text \<open>
  The live driver (\<^verbatim>\<open>onDeviceMotion\<close> in the tracker): each new sample is pushed
  to the buffer and the detector is then asked once, with the current time. The run
  returns the shots in the order they were reported, the detector and the buffer.
\<close>

fun liveRun ::
  "ShotDetector \<Rightarrow> sample IMUBuffer \<Rightarrow> (sample \<times> real) list
   \<Rightarrow> error + (shot list \<times> ShotDetector \<times> sample IMUBuffer)" where
  "liveRun det buffer [] = Inr ([], det, buffer)"
| "liveRun det buffer (ev # rest) =
     (let buffer1 = push buffer (fst ev)
      in case ShotDetector_processSample det buffer1 (snd ev) of
           Inl e \<Rightarrow> Inl e
         | Inr r \<Rightarrow>
             (case liveRun (snd r) buffer1 rest of
                Inl e \<Rightarrow> Inl e
              | Inr out \<Rightarrow>
                  Inr ((case fst r of Some s \<Rightarrow> [s] | None \<Rightarrow> []) @ fst out, snd out)))"

subsection \<open>Notions used in the statements\<close>

text \<open>Flipping the vote of the method at position \<open>k\<close>.\<close>

definition flip_vote :: "method_result list \<Rightarrow> nat \<Rightarrow> method_result list" where
  "flip_vote ms k = ms[k := (ms ! k)\<lparr>vote := \<not> vote (ms ! k)\<rparr>]"

text \<open>
  The gates of the three-phase search in positive form, for a candidate \<open>i\<close> with
  baseline \<open>base\<close> in a signal scanned up to \<open>len\<close>: \<open>dipIdx\<close> and \<open>recIdx\<close> are the
  results of the two searches and every comparison of the source that would reject
  the candidate is false.
\<close>

definition passes :: "real list \<Rightarrow> nat \<Rightarrow> nat \<Rightarrow> stats \<Rightarrow> nat \<Rightarrow> nat \<Rightarrow> bool" where
  "passes aMags len i base dipIdx recIdx \<longleftrightarrow>
     aMags ! i > aMags ! (i - 1) \<and> aMags ! i \<ge> aMags ! (i + 1)
     \<and> aMags ! i \<ge> mean base + PEAK_SIGMA * min (std base) MAX_EFFECTIVE_STD
     \<and> aMags ! i \<ge> MIN_PEAK_ABS
     \<and> dipIdx = findDip aMags i (min len (i + DIP_SEARCH_WINDOW))
     \<and> aMags ! dipIdx \<le> mean base - DIP_SIGMA * std base
     \<and> aMags ! dipIdx \<le> MAX_DIP_ABS
     \<and> aMags ! i - aMags ! dipIdx
           \<ge> max MIN_PEAK_TO_DIP_ABS (min (std base) MAX_EFFECTIVE_STD * PEAK_TO_DIP_SIGMA)
     \<and> dipIdx + 1 < min len (dipIdx + RECOVERY_SEARCH_WINDOW)
     \<and> recIdx = findRec aMags dipIdx (min len (dipIdx + RECOVERY_SEARCH_WINDOW))
     \<and> aMags ! recIdx \<ge> mean base + RECOVERY_SIGMA * min (std base) MAX_EFFECTIVE_STD
     \<and> aMags ! recIdx - aMags ! dipIdx \<ge> MIN_RISE_FROM_DIP"

text \<open>
  The time of the last call of a run of the movement detector that changed
  \<open>isMoving\<close>, if there was one (\<open>f\<close> is the value before the run).
\<close>

fun lastFlip :: "MovementDetector \<Rightarrow> real option \<Rightarrow> (real \<times> real) list \<Rightarrow> real option" where
  "lastFlip md f [] = f"
| "lastFlip md f ((a, now) # rest) =
     (let md' = snd (MovementDetector_processSample md a now)
      in lastFlip md' (if isMoving md' \<noteq> isMoving md then Some now else f) rest)"

text \<open>
  The standard deviation that call \<open>j\<close> (counted from 0) of a run from a new detector
  computes: that of the window once the value of that call is in it. From call 19 on
  the window is full and this is the reading that the call compares with the
  threshold.
\<close>

definition reading :: "(real \<times> real) list \<Rightarrow> nat \<Rightarrow> real" where
  "reading evs j =
     window_std (window (MovementDetector_run new_MovementDetector (take (Suc j) evs)))"

text \<open>
  The running sums \<open>0, v, 2v, \<dots>, nv\<close> of \<open>n\<close> copies of \<open>v\<close> are all finite doubles,
  so that no addition of the sum rounds.
\<close>

definition exact_sums :: "nat \<Rightarrow> real \<Rightarrow> bool" where
  "exact_sums n v = list_all (\<lambda>j. finite_double (real j * v)) [0 ..< Suc n]"

text \<open>
  The gates of the batch loop, grouped for the statements about which candidates are
  recorded. \<open>sample_time\<close> is \<^verbatim>\<open>imuData[i].t || imuData[i].tRel || 0\<close>. The peak gate
  is the pair of comparisons on the candidate itself. \<open>shape_gates\<close> are the other
  comparisons of \<open>passes\<close> (local maximum, dip, range, recovery), and \<open>accepts\<close> adds
  the two post-filters: the consensus voter, when it is on, must call the candidate
  a shot, and so must the calibration classifier, when there is a calibration.
\<close>

definition sample_time :: "sample list \<Rightarrow> nat \<Rightarrow> real" where
  "sample_time imuData i = or_else (t (imuData ! i)) (or_else (tRel (imuData ! i)) 0)"

definition peak_gate :: "real list \<Rightarrow> nat \<Rightarrow> stats \<Rightarrow> bool" where
  "peak_gate aMags i base \<longleftrightarrow>
     aMags ! i \<ge> mean base + PEAK_SIGMA * min (std base) MAX_EFFECTIVE_STD
     \<and> aMags ! i \<ge> MIN_PEAK_ABS"

definition shape_gates :: "real list \<Rightarrow> nat \<Rightarrow> nat \<Rightarrow> stats \<Rightarrow> nat \<Rightarrow> nat \<Rightarrow> bool" where
  "shape_gates aMags len i base dipIdx recIdx \<longleftrightarrow>
     aMags ! i > aMags ! (i - 1) \<and> aMags ! i \<ge> aMags ! (i + 1)
     \<and> aMags ! dipIdx \<le> mean base - DIP_SIGMA * std base
     \<and> aMags ! dipIdx \<le> MAX_DIP_ABS
     \<and> aMags ! i - aMags ! dipIdx
           \<ge> max MIN_PEAK_TO_DIP_ABS (min (std base) MAX_EFFECTIVE_STD * PEAK_TO_DIP_SIGMA)
     \<and> dipIdx + 1 < min len (dipIdx + RECOVERY_SEARCH_WINDOW)
     \<and> aMags ! recIdx \<ge> mean base + RECOVERY_SIGMA * min (std base) MAX_EFFECTIVE_STD
     \<and> aMags ! recIdx - aMags ! dipIdx \<ge> MIN_RISE_FROM_DIP"

definition accepts :: "ShotDetector \<Rightarrow> sample list \<Rightarrow> nat \<Rightarrow> stats \<Rightarrow> bool" where
  "accepts det imuData i base =
     (let aMags = map aMag imuData;
          dipIdx = findDip aMags i (min (length aMags) (i + DIP_SEARCH_WINDOW));
          recIdx = findRec aMags dipIdx (min (length aMags) (dipIdx + RECOVERY_SEARCH_WINDOW))
      in shape_gates aMags (length aMags) i base dipIdx recIdx
         \<and> (case consensusFilter det aMags i dipIdx recIdx of
               Inl e \<Rightarrow> False
             | Inr cons \<Rightarrow> (case cons of Some c \<Rightarrow> isShot c | None \<Rightarrow> True))
         \<and> (case calibrationFilter det imuData i dipIdx recIdx (mean base) of
               Some r \<Rightarrow> cls_isShot r
             | None \<Rightarrow> True))"

text \<open>
  The two separation gates at candidate \<open>i\<close>, in terms of the shots that are
  recorded: the last shot recorded before \<open>i\<close>, if there is one, is at least 60
  samples back, and its sample time is at least 1200 ms back or is not positive.
\<close>

definition clear_of_last :: "shot list \<Rightarrow> sample list \<Rightarrow> nat \<Rightarrow> bool" where
  "clear_of_last shots imuData i =
     (case rev (filter (\<lambda>s. idx s < i) shots) of
        [] \<Rightarrow> True
      | s # earlier \<Rightarrow>
          idx s + 60 \<le> i
          \<and> \<not> (sample_time imuData i - sample_time imuData (idx s) < MIN_SHOT_INTERVAL_MS
               \<and> sample_time imuData (idx s) > 0))"

text \<open>
  The loop state of \<^verbatim>\<open>detectAll\<close> remembers the last recorded shot: \<open>lastIdx\<close> and
  \<open>lastTime\<close> are its index and sample time, or \<^verbatim>\<open>-Infinity\<close> and 0 before the first.
\<close>

definition last_recorded :: "sample list \<Rightarrow> batch_state \<Rightarrow> bool" where
  "last_recorded imuData st =
     (case rev (fst st) of
        [] \<Rightarrow> fst (snd st) = NegInf \<and> snd (snd st) = 0
      | s # earlier \<Rightarrow>
          fst (snd st) = Num (real (idx s)) \<and> snd (snd st) = sample_time imuData (idx s))"

subsection \<open>Example inputs\<close>

text \<open>A sample without timestamps and gyroscope rates.\<close>

definition smp :: "real \<Rightarrow> sample" where
  "smp v = \<lparr>t = None, tRel = None, aMag = v, gx = None, gy = None, gz = None\<rparr>"

text \<open>
  A quiet baseline at 10 with one shot: peak 20 at index 100, dip 2, recovery 15.
  With 166 samples the batch scan looks at index 100 only.
\<close>

definition signal_A :: "sample list" where
  "signal_A = replicate 100 (smp 10) @ [smp 20, smp 2, smp 15] @ replicate 63 (smp 10)"

definition shot_A :: shot where
  "shot_A = \<lparr>idx = 100, bufferIdx = None, mag = 20, dipMag = 2, recoveryMag = 15,
     shot_range = 18, shot_t = None, shot_tRel = None, consensus = None, calibResult = None\<rparr>"

text \<open>
  Two such shots, at 100 and at 203; the recovery of the first, at 102, is itself a
  local maximum above the peak thresholds and is suppressed by the separation gate.
\<close>

definition signal_B :: "sample list" where
  "signal_B = replicate 100 (smp 10) @ [smp 20, smp 2, smp 15] @ replicate 100 (smp 10)
                @ [smp 20, smp 2, smp 15] @ replicate 63 (smp 10)"

definition shot_B :: shot where
  "shot_B = \<lparr>idx = 203, bufferIdx = None, mag = 20, dipMag = 2, recoveryMag = 15,
     shot_range = 18, shot_t = None, shot_tRel = None, consensus = None, calibResult = None\<rparr>"

text \<open>A peak that is a plateau of two equal samples, at 100 and 101.\<close>

definition signal_P :: "sample list" where
  "signal_P = replicate 100 (smp 10) @ [smp 20, smp 20, smp 2, smp 15] @ replicate 62 (smp 10)"

definition shot_P :: shot where
  "shot_P = \<lparr>idx = 100, bufferIdx = None, mag = 20, dipMag = 2, recoveryMag = 15,
     shot_range = 18, shot_t = None, shot_tRel = None, consensus = None, calibResult = None\<rparr>"

text \<open>
  Heavy motion: the signal alternates between 9.75 and 14.75 (mean 12.25, standard
  deviation 2.5) and has a peak of 16, which is 1.5 standard deviations above the
  mean, at index 100, followed by a dip to 2 and a recovery to 15.
\<close>

definition signal_C :: "sample list" where
  "signal_C = concat (replicate 40 [smp 9.75, smp 14.75])
                @ concat (replicate 10 [smp 9.75, smp 14.75])
                @ [smp 16, smp 2, smp 15]
                @ concat (replicate 32 [smp 9.75, smp 14.75])"

definition shot_C :: shot where
  "shot_C = \<lparr>idx = 100, bufferIdx = None, mag = 16, dipMag = 2, recoveryMag = 15,
     shot_range = 14, shot_t = None, shot_tRel = None, consensus = None, calibResult = None\<rparr>"

text \<open>A detector with the consensus voter on and a quorum of 5 of the 4 methods.\<close>

definition detector_5 :: ShotDetector where
  "detector_5 = new_ShotDetector\<lparr>useConsensus := True,
                                 consensusOpts := no_opts\<lparr>minVotes := Some 5\<rparr>\<rparr>"

text \<open>
  Live buffers of 190 samples: \<open>buffer_A\<close> holds the shot of \<open>signal_A\<close> at buffer
  index 100, the first index of the scan window; \<open>buffer_A2\<close> holds the same samples
  after one compaction of a buffer of capacity 250 and shift 100 (290 samples pushed);
  \<open>buffer_flat\<close> holds no peak at all.
\<close>

definition buffer_A :: "sample IMUBuffer" where
  "buffer_A = \<lparr>maxSize = 250, shiftSize = 100,
     data = replicate 100 (smp 10) @ [smp 20, smp 2, smp 15] @ replicate 87 (smp 10),
     totalPushed = 190, offset = 0\<rparr>"

definition buffer_A2 :: "sample IMUBuffer" where
  "buffer_A2 = \<lparr>maxSize = 250, shiftSize = 100,
     data = replicate 100 (smp 10) @ [smp 20, smp 2, smp 15] @ replicate 87 (smp 10),
     totalPushed = 290, offset = 100\<rparr>"

definition buffer_A_before :: "sample IMUBuffer" where
  "buffer_A_before = \<lparr>maxSize = 250, shiftSize = 100,
     data = replicate 100 (smp 10) @ [smp 20, smp 2, smp 15] @ replicate 86 (smp 10),
     totalPushed = 189, offset = 0\<rparr>"

definition buffer_flat :: "sample IMUBuffer" where
  "buffer_flat = \<lparr>maxSize = 3000, shiftSize = 1000, data = replicate 190 (smp 10),
     totalPushed = 190, offset = 0\<rparr>"

definition live_shot :: "nat \<Rightarrow> real \<Rightarrow> shot" where
  "live_shot k now = \<lparr>idx = k, bufferIdx = Some 100, mag = 20, dipMag = 2, recoveryMag = 15,
     shot_range = 18, shot_t = Some now, shot_tRel = None, consensus = None,
     calibResult = None\<rparr>"

text \<open>A detector that reported a shot at absolute index 40 at time 1000.\<close>

definition detector_40 :: ShotDetector where
  "detector_40 = new_ShotDetector\<lparr>lastShotTime := 1000, lastShotIdx := Num 40\<rparr>"

text \<open>A short signal for the consensus voter: peak at 1, dip at 2, recovery at 3.\<close>

definition signal_V :: "real list" where
  "signal_V = [10, 20, 2, 15]"

text \<open>
  Readings for the movement detector: one jolt of 14 followed by 19 quiet readings of
  10, 20 ms apart; and a detector that has been moving since time 1000 and whose
  window is quiet.
\<close>

definition events_M :: "(real \<times> real) list" where
  "events_M = [(14, 0), (10, 20), (10, 40), (10, 60), (10, 80), (10, 100), (10, 120),
     (10, 140), (10, 160), (10, 180), (10, 200), (10, 220), (10, 240), (10, 260),
     (10, 280), (10, 300), (10, 320), (10, 340), (10, 360), (10, 380)]"

text \<open>The same run followed by two quiet readings, 20 and 40 ms after the start of movement.\<close>

definition events_M2 :: "(real \<times> real) list" where
  "events_M2 = events_M @ [(10, 400), (10, 420)]"

definition detector_M :: MovementDetector where
  "detector_M = \<lparr>window = [10, 10, 10, 10, 10, 10, 10, 10, 10, 10,
                             10, 10, 10, 10, 10, 10, 10, 10, 10, 10],
     isMoving = True, lastTransitionTime = 1000, intensity = 1\<rparr>"

text \<open>
  The double written \<^verbatim>\<open>0.1\<close>, and the feature vector that has the same value under
  every key.
\<close>

definition tenth :: real where
  "tenth = rnd (1 / 10)"

definition features_const :: "real \<Rightarrow> features" where
  "features_const v = (\<lambda>key. Some v)"

subsection \<open>Properties of the IMU buffer\<close>

lemma push_fields [simp]:
  "maxSize (push b y) = maxSize b" "shiftSize (push b y) = shiftSize b"
  by (simp_all add: push_def Let_def)

lemma nextAbs_push: "nextAbs b < nextAbs (push b y)"
  by (simp add: nextAbs_def absIndex_def push_def Let_def del: drop_append) arith

lemma stamped_push:
  assumes "stamped b"
  shows "stamped (push b (nextAbs b, x))"
proof -
  let ?d = "data b @ [(nextAbs b, x)]"
  have full: "fst (?d ! i) = i + offset b" if "i < length ?d" for i
  proof (cases "i < length (data b)")
    case True
    with assms show ?thesis by (simp add: stamped_def absIndex_def nth_append)
  next
    case False
    with that have "i = length (data b)" by simp
    then show ?thesis by (simp add: nextAbs_def absIndex_def)
  qed
  show ?thesis
  proof (cases "length ?d > maxSize b")
    case True
    then have d: "data (push b (nextAbs b, x)) = drop (shiftSize b) ?d"
      and off: "offset (push b (nextAbs b, x)) = offset b + shiftSize b"
      by (simp_all add: push_def Let_def)
    show ?thesis
      unfolding stamped_def d off absIndex_def
    proof (intro allI impI)
      fix i assume "i < length (drop (shiftSize b) ?d)"
      then have "shiftSize b + i < length ?d" by simp
      then have "fst (?d ! (shiftSize b + i)) = shiftSize b + i + offset b"
        using full by blast
      moreover have "drop (shiftSize b) ?d ! i = ?d ! (shiftSize b + i)"
        using \<open>shiftSize b + i < length ?d\<close> by (intro nth_drop) simp
      ultimately show "fst (drop (shiftSize b) ?d ! i) = i + (offset b + shiftSize b)"
        by simp
    qed
  next
    case False
    then have d: "data (push b (nextAbs b, x)) = ?d"
      and off: "offset (push b (nextAbs b, x)) = offset b"
      by (simp_all add: push_def Let_def)
    show ?thesis
      unfolding stamped_def d off absIndex_def using full by blast
  qed
qed

lemma stamped_pushRun: "stamped b \<Longrightarrow> stamped (pushRun b xs)"
  by (induction xs arbitrary: b) (simp_all add: stamped_push)

lemma stamps_lower: "k \<in> set (stamps b xs) \<Longrightarrow> nextAbs b \<le> k"
proof (induction xs arbitrary: b)
  case Nil
  then show ?case by simp
next
  case (Cons x xs)
  from Cons.prems consider "k = nextAbs b" | "k \<in> set (stamps (push b (nextAbs b, x)) xs)"
    by auto
  then show ?case
  proof cases
    case 1
    then show ?thesis by simp
  next
    case 2
    then have "nextAbs (push b (nextAbs b, x)) \<le> k" by (rule Cons.IH)
    with nextAbs_push [of b "(nextAbs b, x)"] show ?thesis by simp
  qed
qed

lemma stamps_increasing: "sorted_wrt (<) (stamps b xs)"
proof (induction xs arbitrary: b)
  case Nil
  then show ?case by simp
next
  case (Cons x xs)
  have "nextAbs b < k" if "k \<in> set (stamps (push b (nextAbs b, x)) xs)" for k
    using stamps_lower [OF that] nextAbs_push [of b "(nextAbs b, x)"] by simp
  with Cons.IH show ?case by simp
qed

lemma length_stamps [simp]: "length (stamps b xs) = length xs"
  by (induction xs arbitrary: b) simp_all

lemma pushRun_fields [simp]:
  "maxSize (pushRun b xs) = maxSize b" "shiftSize (pushRun b xs) = shiftSize b"
  by (induction xs arbitrary: b) simp_all

lemma push_bounded:
  "0 < shiftSize b \<Longrightarrow> length (data b) \<le> maxSize b \<Longrightarrow>
   length (data (push b y)) \<le> maxSize b"
  by (simp add: push_def Let_def del: drop_append) arith

lemma pushRun_bounded:
  "0 < shiftSize b \<Longrightarrow> length (data b) \<le> maxSize b \<Longrightarrow>
   length (data (pushRun b xs)) \<le> maxSize b"
proof (induction xs arbitrary: b)
  case Nil
  then show ?case by simp
next
  case (Cons x xs)
  have "length (data (push b (nextAbs b, x))) \<le> maxSize (push b (nextAbs b, x))"
    using Cons.prems by (simp add: push_bounded)
  moreover have "0 < shiftSize (push b (nextAbs b, x))"
    using Cons.prems by simp
  ultimately have
    "length (data (pushRun (push b (nextAbs b, x)) xs)) \<le> maxSize (push b (nextAbs b, x))"
    by (rule Cons.IH [rotated])
  then show ?case by simp
qed

lemma pushRun_samples: "set (data (pushRun b xs)) \<subseteq> set (data b) \<union> set (zip (stamps b xs) xs)"
proof (induction xs arbitrary: b)
  case Nil
  then show ?case by simp
next
  case (Cons x xs)
  have "set (data (push b (nextAbs b, x))) \<subseteq> set (data b) \<union> {(nextAbs b, x)}"
    using set_drop_subset [of "shiftSize b" "data b @ [(nextAbs b, x)]"]
    by (auto simp: push_def Let_def)
  with Cons.IH [of "push b (nextAbs b, x)"] show ?case by auto
qed

text \<open>
  Claim C9. Start from an empty buffer of any capacity and shift size and push any
  sequence of samples, each stored with the absolute index it gets at its push.
  Then (1) every sample still in the live window sits at exactly the absolute index
  it was given, and is one of the pushed samples with its own stamp; (2) the absolute
  indices handed out are strictly increasing in push order, so none is used twice;
  (3) when the shift size is positive, the live window is no longer than
  \<^verbatim>\<open>maxSize\<close> after the run.
\<close>

theorem C9_absolute_index_stable:
  "(\<forall>i < length (data (pushRun (new_IMUBuffer m s) xs)).
      fst (data (pushRun (new_IMUBuffer m s) xs) ! i) = absIndex (pushRun (new_IMUBuffer m s) xs) i)
   \<and> set (data (pushRun (new_IMUBuffer m s) xs)) \<subseteq> set (zip (stamps (new_IMUBuffer m s) xs) xs)
   \<and> sorted_wrt (<) (stamps (new_IMUBuffer m s) xs)
   \<and> (0 < s \<longrightarrow> length (data (pushRun (new_IMUBuffer m s) xs)) \<le> m)"
proof -
  let ?b = "new_IMUBuffer m s :: (nat \<times> 'a) IMUBuffer"
  have "stamped ?b" by (simp add: stamped_def new_IMUBuffer_def)
  then have "stamped (pushRun ?b xs)" by (rule stamped_pushRun)
  then have 1: "\<forall>i < length (data (pushRun ?b xs)).
      fst (data (pushRun ?b xs) ! i) = absIndex (pushRun ?b xs) i"
    by (simp add: stamped_def)
  have 2: "set (data (pushRun ?b xs)) \<subseteq> set (zip (stamps ?b xs) xs)"
    using pushRun_samples [of ?b xs] by (simp add: new_IMUBuffer_def)
  have 3: "sorted_wrt (<) (stamps ?b xs)" by (rule stamps_increasing)
  have 4: "0 < s \<longrightarrow> length (data (pushRun ?b xs)) \<le> m"
    using pushRun_bounded [of ?b xs] by (simp add: new_IMUBuffer_def)
  from 1 2 3 4 show ?thesis by blast
qed

theorem C9_absolute_index_stable_witness:
  "pushRun (new_IMUBuffer 2 1) [10::nat, 20, 30, 40]
     = \<lparr>maxSize = 2, shiftSize = 1, data = [(2, 30), (3, 40)], totalPushed = 4, offset = 2\<rparr>
   \<and> stamps (new_IMUBuffer 2 1) [10::nat, 20, 30, 40] = [0, 1, 2, 3]
   \<and> (0::nat) < 1
   \<and> length (data (pushRun (new_IMUBuffer 2 1) [10::nat, 20, 30, 40])) \<le> 2
   \<and> fst (data (pushRun (new_IMUBuffer 2 1) [10::nat, 20, 30, 40]) ! 1)
       = absIndex (pushRun (new_IMUBuffer 2 1) [10::nat, 20, 30, 40]) 1
   \<and> sorted_wrt (<) (stamps (new_IMUBuffer 2 1) [10::nat, 20, 30, 40])"
proof -
  let ?xs = "[10::nat, 20, 30, 40]"
  have run: "pushRun (new_IMUBuffer 2 1) ?xs
     = \<lparr>maxSize = 2, shiftSize = 1, data = [(2, 30), (3, 40)], totalPushed = 4, offset = 2\<rparr>"
    by (simp add: new_IMUBuffer_def push_def nextAbs_def absIndex_def Let_def)
  have st: "stamps (new_IMUBuffer 2 1) ?xs = [0, 1, 2, 3]"
    by (simp add: new_IMUBuffer_def push_def nextAbs_def absIndex_def Let_def)
  note C = C9_absolute_index_stable [of 2 1 ?xs]
  have len: "1 < length (data (pushRun (new_IMUBuffer 2 1) ?xs))" unfolding run by simp
  from C [THEN conjunct1, rule_format, OF len]
  have a: "fst (data (pushRun (new_IMUBuffer 2 1) ?xs) ! 1)
       = absIndex (pushRun (new_IMUBuffer 2 1) ?xs) 1" .
  from C have b: "sorted_wrt (<) (stamps (new_IMUBuffer 2 1) ?xs)" by blast
  have p: "(0::nat) < 1" by simp
  from C [THEN conjunct2, THEN conjunct2, THEN conjunct2, THEN mp, OF p]
  have c: "length (data (pushRun (new_IMUBuffer 2 1) ?xs)) \<le> 2" .
  from run st p c a b show ?thesis by (intro conjI)
qed

subsection \<open>Properties of the calibration classifier\<close>

text \<open>
  Claim C6. \<^verbatim>\<open>classify\<close> is fail-open: for every feature vector \<open>f\<close> (also one
  with missing features) it accepts when the calibration is \<^verbatim>\<open>null\<close>, when it is
  \<^verbatim>\<open>{}\<close> (no \<^verbatim>\<open>profiles\<close> field), and when the shooting profile of its
  profiles is \<^verbatim>\<open>null\<close>, whatever the other three profiles are. The model of
  \<^verbatim>\<open>classify\<close> has no error result because the source has no statement that can
  throw on these paths: the features are not read before the two early returns.
\<close>

theorem C6_classify_fail_open:
  "cls_isShot (classify f None)
   \<and> cls_isShot (classify f (Some \<lparr>profiles = None\<rparr>))
   \<and> cls_isShot (classify f (Some \<lparr>profiles = Some (ps\<lparr>shooting := None\<rparr>)\<rparr>))
   \<and> reason (classify f None) = NoCalibration
   \<and> reason (classify f (Some \<lparr>profiles = None\<rparr>)) = NoCalibration
   \<and> reason (classify f (Some \<lparr>profiles = Some (ps\<lparr>shooting := None\<rparr>)\<rparr>)) = NoShootingProfile"
  by (simp add: classify_def)

subsection \<open>Properties of the consensus voter\<close>

lemma or_else_simps [simp]:
  "or_else None d = d"
  "or_else (Some x) d = (if x = 0 then d else x)"
  by (simp_all add: or_else_def)

lemma tally_fields [simp]:
  "isShot (tally ms opts) = (real (length (filter vote ms)) \<ge> or_else (minVotes opts) 3)"
  "votes (tally ms opts) = length (filter vote ms)"
  "total (tally ms opts) = length ms"
  "confidence (tally ms opts) = real (length (filter vote ms)) / real (length ms)"
  "methods (tally ms opts) = ms"
  by (simp_all add: tally_def Let_def)

lemma filter_vote_update:
  "k < length ms \<Longrightarrow>
   length (filter vote (ms[k := (ms ! k)\<lparr>vote := \<not> vote (ms ! k)\<rparr>])) =
     (if vote (ms ! k) then length (filter vote ms) - 1 else length (filter vote ms) + 1)
   \<and> (vote (ms ! k) \<longrightarrow> 0 < length (filter vote ms))"
proof (induction ms arbitrary: k)
  case Nil
  then show ?case by simp
next
  case (Cons m ms)
  show ?case
  proof (cases k)
    case 0
    then show ?thesis by simp
  next
    case (Suc j)
    with Cons.prems have "j < length ms" by simp
    from Cons.IH [OF this] Suc show ?thesis by auto
  qed
qed

lemma evaluate_in_range:
  assumes "dipIdx < length aMags"
  shows "\<exists>dd. dipDepth aMags peakIdx dipIdx (opt_dipDepth opts) = Inr dd
           \<and> evaluate aMags peakIdx dipIdx recIdx opts =
               Inr (tally [windowSigma aMags peakIdx (opt_windowSigma opts),
                           envelopeRatio aMags peakIdx (opt_envelopeRatio opts),
                           dd,
                           peakProminence aMags peakIdx (opt_peakProminence opts)] opts)"
  using assms by (simp add: evaluate_def dipDepth_def Let_def)

lemma evaluate_out_of_range:
  "length aMags \<le> dipIdx \<Longrightarrow> evaluate aMags peakIdx dipIdx recIdx opts = Inl TypeError"
  by (simp add: evaluate_def dipDepth_def Let_def)

lemma evaluate_V_out:
  "evaluate signal_V 1 4 3 no_opts = Inl TypeError"
  by (rule evaluate_out_of_range) (simp add: signal_V_def)

text \<open>
  Claim C5, as the source has it. For a dip index outside the signal
  \<^verbatim>\<open>evaluate\<close> throws a \<^verbatim>\<open>TypeError\<close> (\<^verbatim>\<open>dipVal.toFixed\<close> of \<^verbatim>\<open>undefined\<close>). For
  a dip index inside the signal it returns a result built from exactly the four
  methods, in the order window-sigma, envelope ratio, dip depth, peak prominence;
  \<open>votes\<close> is the number of true votes; \<open>isShot\<close> holds exactly when
  \<open>votes \<ge> minVotes\<close>, where \<open>minVotes\<close> is \<^verbatim>\<open>opts.minVotes || 3\<close>: the configured
  number when it is not 0, and 3 when the option is missing or 0; \<open>total\<close> is 4 and
  \<open>confidence\<close> is \<open>votes / 4\<close>. Flipping the vote of any single method moves the
  count by exactly one, and the aggregate \<open>isShot\<close> changes exactly when the count
  crosses \<open>minVotes\<close>.
\<close>

theorem C5_consensus_quorum:
  "(length aMags \<le> dipIdx \<longrightarrow>
      evaluate aMags peakIdx dipIdx recIdx opts = Inl TypeError)
   \<and> (dipIdx < length aMags \<longrightarrow>
      (\<exists>r dd. evaluate aMags peakIdx dipIdx recIdx opts = Inr r
           \<and> dipDepth aMags peakIdx dipIdx (opt_dipDepth opts) = Inr dd
           \<and> methods r = [windowSigma aMags peakIdx (opt_windowSigma opts),
                           envelopeRatio aMags peakIdx (opt_envelopeRatio opts),
                           dd,
                           peakProminence aMags peakIdx (opt_peakProminence opts)]
           \<and> votes r = length (filter vote (methods r))
           \<and> total r = 4
           \<and> isShot r = (real (votes r) \<ge> or_else (minVotes opts) 3)
           \<and> (minVotes opts = None \<or> minVotes opts = Some 0 \<longrightarrow>
                 isShot r = (3 \<le> votes r))
           \<and> (\<forall>m. minVotes opts = Some m \<and> m \<noteq> 0 \<longrightarrow>
                 isShot r = (m \<le> real (votes r)))
           \<and> confidence r = real (votes r) / 4
           \<and> (\<forall>k < 4.
                 votes (tally (flip_vote (methods r) k) opts) =
                   (if vote (methods r ! k) then votes r - 1 else votes r + 1)
                 \<and> (isShot (tally (flip_vote (methods r) k) opts) \<noteq> isShot r \<longleftrightarrow>
                      (real (votes r) < or_else (minVotes opts) 3
                         \<and> or_else (minVotes opts) 3 \<le> real (votes (tally (flip_vote (methods r) k) opts)))
                      \<or> (real (votes (tally (flip_vote (methods r) k) opts)) < or_else (minVotes opts) 3
                         \<and> or_else (minVotes opts) 3 \<le> real (votes r))))))"
proof (intro conjI impI)
  assume "length aMags \<le> dipIdx"
  then show "evaluate aMags peakIdx dipIdx recIdx opts = Inl TypeError"
    by (rule evaluate_out_of_range)
next
  assume inside: "dipIdx < length aMags"
  from evaluate_in_range [OF inside] obtain dd where
    dd: "dipDepth aMags peakIdx dipIdx (opt_dipDepth opts) = Inr dd" and
    ev: "evaluate aMags peakIdx dipIdx recIdx opts =
           Inr (tally [windowSigma aMags peakIdx (opt_windowSigma opts),
                       envelopeRatio aMags peakIdx (opt_envelopeRatio opts),
                       dd,
                       peakProminence aMags peakIdx (opt_peakProminence opts)] opts)"
    by blast
  let ?ms = "[windowSigma aMags peakIdx (opt_windowSigma opts),
              envelopeRatio aMags peakIdx (opt_envelopeRatio opts),
              dd,
              peakProminence aMags peakIdx (opt_peakProminence opts)]"
  let ?r = "tally ?ms opts"
  have len: "length ?ms = 4" by simp
  have flip: "votes (tally (flip_vote ?ms k) opts) =
                (if vote (?ms ! k) then votes ?r - 1 else votes ?r + 1)" if "k < 4" for k
    using filter_vote_update [of k ?ms] that len
    unfolding flip_vote_def tally_fields by presburger
  have cross: "isShot (tally (flip_vote ?ms k) opts) \<noteq> isShot ?r \<longleftrightarrow>
                 (real (votes ?r) < or_else (minVotes opts) 3
                    \<and> or_else (minVotes opts) 3 \<le> real (votes (tally (flip_vote ?ms k) opts)))
                 \<or> (real (votes (tally (flip_vote ?ms k) opts)) < or_else (minVotes opts) 3
                    \<and> or_else (minVotes opts) 3 \<le> real (votes ?r))" for k
    unfolding tally_fields by linarith
  have "methods ?r = ?ms" "votes ?r = length (filter vote (methods ?r))" "total ?r = 4"
    "isShot ?r = (real (votes ?r) \<ge> or_else (minVotes opts) 3)"
    "minVotes opts = None \<or> minVotes opts = Some 0 \<longrightarrow> isShot ?r = (3 \<le> votes ?r)"
    "\<forall>m. minVotes opts = Some m \<and> m \<noteq> 0 \<longrightarrow> isShot ?r = (m \<le> real (votes ?r))"
    "confidence ?r = real (votes ?r) / 4"
    by (auto simp del: filter.simps)
  with ev dd flip cross show "\<exists>r dd. evaluate aMags peakIdx dipIdx recIdx opts = Inr r
           \<and> dipDepth aMags peakIdx dipIdx (opt_dipDepth opts) = Inr dd
           \<and> methods r = [windowSigma aMags peakIdx (opt_windowSigma opts),
                           envelopeRatio aMags peakIdx (opt_envelopeRatio opts),
                           dd,
                           peakProminence aMags peakIdx (opt_peakProminence opts)]
           \<and> votes r = length (filter vote (methods r))
           \<and> total r = 4
           \<and> isShot r = (real (votes r) \<ge> or_else (minVotes opts) 3)
           \<and> (minVotes opts = None \<or> minVotes opts = Some 0 \<longrightarrow>
                 isShot r = (3 \<le> votes r))
           \<and> (\<forall>m. minVotes opts = Some m \<and> m \<noteq> 0 \<longrightarrow>
                 isShot r = (m \<le> real (votes r)))
           \<and> confidence r = real (votes r) / 4
           \<and> (\<forall>k < 4.
                 votes (tally (flip_vote (methods r) k) opts) =
                   (if vote (methods r ! k) then votes r - 1 else votes r + 1)
                 \<and> (isShot (tally (flip_vote (methods r) k) opts) \<noteq> isShot r \<longleftrightarrow>
                      (real (votes r) < or_else (minVotes opts) 3
                         \<and> or_else (minVotes opts) 3 \<le> real (votes (tally (flip_vote (methods r) k) opts)))
                      \<or> (real (votes (tally (flip_vote (methods r) k) opts)) < or_else (minVotes opts) 3
                         \<and> or_else (minVotes opts) 3 \<le> real (votes r))))"
    by (intro exI [of _ ?r] exI [of _ dd]) (simp only: simp_thms; blast)
qed

lemma methods_V:
  "windowSigma signal_V 1 None = \<lparr>vote = False, m_confidence = 0\<rparr>"
  "envelopeRatio signal_V 1 None = \<lparr>vote = False, m_confidence = 0\<rparr>"
  "dipDepth signal_V 1 2 None = Inr \<lparr>vote = True, m_confidence = 3 / 5\<rparr>"
  "peakProminence signal_V 1 None = \<lparr>vote = True, m_confidence = 1\<rparr>"
proof -
  show "windowSigma signal_V 1 None = \<lparr>vote = False, m_confidence = 0\<rparr>"
    by (simp add: windowSigma_def signal_V_def slice_def Let_def)
  show "envelopeRatio signal_V 1 None = \<lparr>vote = False, m_confidence = 0\<rparr>"
    by (simp add: envelopeRatio_def signal_V_def slice_def Let_def)
  show "dipDepth signal_V 1 2 None = Inr \<lparr>vote = True, m_confidence = 3 / 5\<rparr>"
    by (simp add: dipDepth_def signal_V_def Let_def)
  show "peakProminence signal_V 1 None = \<lparr>vote = True, m_confidence = 1\<rparr>"
    by (simp add: peakProminence_def signal_V_def Let_def upt_conv_Cons del: upt_Suc)
qed

lemma evaluate_V:
  "evaluate signal_V 1 2 3 no_opts
     = Inr \<lparr>isShot = False, votes = 2, total = 4, confidence = 1 / 2,
            methods = [\<lparr>vote = False, m_confidence = 0\<rparr>,
                       \<lparr>vote = False, m_confidence = 0\<rparr>,
                       \<lparr>vote = True, m_confidence = 3 / 5\<rparr>,
                       \<lparr>vote = True, m_confidence = 1\<rparr>]\<rparr>"
  by (simp add: evaluate_def no_opts_def methods_V tally_def Let_def del: One_nat_def)

lemma evaluate_V_zero:
  "evaluate signal_V 1 2 3 (no_opts\<lparr>minVotes := Some 0\<rparr>)
     = Inr \<lparr>isShot = False, votes = 2, total = 4, confidence = 1 / 2,
            methods = [\<lparr>vote = False, m_confidence = 0\<rparr>,
                       \<lparr>vote = False, m_confidence = 0\<rparr>,
                       \<lparr>vote = True, m_confidence = 3 / 5\<rparr>,
                       \<lparr>vote = True, m_confidence = 1\<rparr>]\<rparr>"
  by (simp add: evaluate_def no_opts_def methods_V tally_def Let_def del: One_nat_def)

text \<open>
  Counterexample to claim C5 as stated, which speaks of every candidate triple and
  every options object. On the four-sample signal \<open>signal_V\<close> the candidate with dip
  index 4, which is outside the signal, makes \<^verbatim>\<open>evaluate\<close> throw: there is no
  result at all. With the options \<^verbatim>\<open>{minVotes: 0}\<close> the candidate \<open>(1, 2, 3)\<close> gets
  two votes, which is at least the configured 0, and still \<open>isShot\<close> is false: a
  configured 0 is read as 3.
\<close>

theorem C5_counterexample:
  "length signal_V = 4
   \<and> evaluate signal_V 1 4 3 no_opts = Inl TypeError
   \<and> minVotes (no_opts\<lparr>minVotes := Some 0\<rparr>) = Some 0
   \<and> evaluate signal_V 1 2 3 (no_opts\<lparr>minVotes := Some 0\<rparr>)
       = Inr \<lparr>isShot = False, votes = 2, total = 4, confidence = 1 / 2,
              methods = [\<lparr>vote = False, m_confidence = 0\<rparr>,
                         \<lparr>vote = False, m_confidence = 0\<rparr>,
                         \<lparr>vote = True, m_confidence = 3 / 5\<rparr>,
                         \<lparr>vote = True, m_confidence = 1\<rparr>]\<rparr>
   \<and> (0::real) \<le> real (2::nat)"
  using evaluate_V_zero evaluate_V_out by (simp add: signal_V_def)

theorem C5_consensus_quorum_witness:
  "(2::nat) < length signal_V \<and> length signal_V \<le> (4::nat)
   \<and> evaluate signal_V 1 4 3 no_opts = Inl TypeError
   \<and> evaluate signal_V 1 2 3 no_opts
       = Inr \<lparr>isShot = False, votes = 2, total = 4, confidence = 1 / 2,
              methods = [\<lparr>vote = False, m_confidence = 0\<rparr>,
                         \<lparr>vote = False, m_confidence = 0\<rparr>,
                         \<lparr>vote = True, m_confidence = 3 / 5\<rparr>,
                         \<lparr>vote = True, m_confidence = 1\<rparr>]\<rparr>
   \<and> (\<exists>r. evaluate signal_V 1 2 3 no_opts = Inr r
          \<and> isShot r = (3 \<le> votes r)
          \<and> confidence r = real (votes r) / 4
          \<and> votes (tally (flip_vote (methods r) 0) no_opts) = votes r + 1
          \<and> isShot (tally (flip_vote (methods r) 0) no_opts) \<noteq> isShot r
          \<and> votes (tally (flip_vote (methods r) 2) no_opts) = votes r - 1
          \<and> isShot (tally (flip_vote (methods r) 2) no_opts) = isShot r)"
proof -
  have len: "(2::nat) < length signal_V" by (simp add: signal_V_def)
  have len4: "length signal_V \<le> (4::nat)" by (simp add: signal_V_def)
  from C5_consensus_quorum [of signal_V 4 1 3 no_opts, THEN conjunct1, THEN mp, OF len4]
  have out: "evaluate signal_V 1 4 3 no_opts = Inl TypeError" .
  from C5_consensus_quorum [of signal_V 2 1 3 no_opts, THEN conjunct2, THEN mp, OF len]
  obtain r dd where
    r: "evaluate signal_V 1 2 3 no_opts = Inr r"
    and q: "isShot r = (real (votes r) \<ge> or_else (minVotes no_opts) 3)"
    and c: "confidence r = real (votes r) / 4"
    and f: "\<forall>k < 4.
                 votes (tally (flip_vote (methods r) k) no_opts) =
                   (if vote (methods r ! k) then votes r - 1 else votes r + 1)
                 \<and> (isShot (tally (flip_vote (methods r) k) no_opts) \<noteq> isShot r \<longleftrightarrow>
                      (real (votes r) < or_else (minVotes no_opts) 3
                         \<and> or_else (minVotes no_opts) 3
                             \<le> real (votes (tally (flip_vote (methods r) k) no_opts)))
                      \<or> (real (votes (tally (flip_vote (methods r) k) no_opts))
                             < or_else (minVotes no_opts) 3
                         \<and> or_else (minVotes no_opts) 3 \<le> real (votes r)))"
    by blast
  from r evaluate_V have rv: "votes r = 2" "vote (methods r ! 0) = False"
    "vote (methods r ! 2) = True"
    by auto
  from q have q': "isShot r = (3 \<le> votes r)" by (simp add: no_opts_def)
  from f [rule_format, of 0] rv q'
  have f0: "votes (tally (flip_vote (methods r) 0) no_opts) = votes r + 1"
    "isShot (tally (flip_vote (methods r) 0) no_opts) \<noteq> isShot r"
    by (simp_all add: no_opts_def)
  from f [rule_format, of 2] rv q'
  have f2: "votes (tally (flip_vote (methods r) 2) no_opts) = votes r - 1"
    "isShot (tally (flip_vote (methods r) 2) no_opts) = isShot r"
    by (simp_all add: no_opts_def)
  from r q' c f0 f2 have "\<exists>r. evaluate signal_V 1 2 3 no_opts = Inr r
          \<and> isShot r = (3 \<le> votes r)
          \<and> confidence r = real (votes r) / 4
          \<and> votes (tally (flip_vote (methods r) 0) no_opts) = votes r + 1
          \<and> isShot (tally (flip_vote (methods r) 0) no_opts) \<noteq> isShot r
          \<and> votes (tally (flip_vote (methods r) 2) no_opts) = votes r - 1
          \<and> isShot (tally (flip_vote (methods r) 2) no_opts) = isShot r"
    by blast
  with len len4 out evaluate_V show ?thesis by (intro conjI)
qed
subsection \<open>The gates, read off the two loop bodies\<close>

text \<open>
  A pass of the batch loop body either leaves the state as it is, or all gates have
  passed; then an exception of the consensus voter is passed on, or one of the two
  post-filters rejects (state as it is), or the shot is appended and
  \<open>lastIdx\<close>, \<open>lastTime\<close> are set. The proof walks down the gates in the order
  of the source: a gate that fires returns the old state.
\<close>

lemma detectAll_body_cases:
  fixes R
  defines "sampleTime \<equiv> \<lambda>imuData i. or_else (t (imuData ! i)) (or_else (tRel (imuData ! i)) (0::real))"
  assumes run: "detectAll_body det imuData aMags i st = R"
  shows "R = Inr st \<or>
    (\<exists>base dipIdx recIdx.
       baseline aMags (i - BASELINE_OFFSET) = Some base
       \<and> passes aMags (length aMags) i base dipIdx recIdx
       \<and> \<not> xlt (xsub (Num (real i)) (fst (snd st))) (Num MIN_SHOT_SAMPLES)
       \<and> \<not> (sampleTime imuData i - snd (snd st) < MIN_SHOT_INTERVAL_MS \<and> snd (snd st) > 0)
       \<and> (case consensusFilter det aMags i dipIdx recIdx of
             Inl e \<Rightarrow> R = Inl e
           | Inr cons \<Rightarrow>
               R = Inr (fst st @ [\<lparr>idx = i, bufferIdx = None, mag = aMags ! i,
                      dipMag = aMags ! dipIdx, recoveryMag = aMags ! recIdx,
                      shot_range = aMags ! i - aMags ! dipIdx,
                      shot_t = t (imuData ! i), shot_tRel = tRel (imuData ! i),
                      consensus = cons,
                      calibResult = calibrationFilter det imuData i dipIdx recIdx (mean base)\<rparr>],
                    Num (real i), sampleTime imuData i)))"
proof (cases "R = Inr st")
  case True
  then show ?thesis by simp
next
  case ne: False
  note body = detectAll_body_def Let_def
  note red = simp_thms if_True if_False option.case sum.case
  let ?c1 = "aMags ! i \<le> aMags ! (i - 1) \<or> aMags ! i < aMags ! (i + 1)"
  have g1: "\<not> ?c1"
  proof
    assume c: ?c1
    have "detectAll_body det imuData aMags i st = Inr st"
      unfolding body using c by (simp only: red)
    with run ne show False by simp
  qed
  obtain base where base: "baseline aMags (i - BASELINE_OFFSET) = Some base"
  proof (cases "baseline aMags (i - BASELINE_OFFSET)")
    case None
    have "detectAll_body det imuData aMags i st = Inr st"
      unfolding body using g1 None by (simp only: red)
    with run ne show ?thesis by simp
  next
    case (Some b)
    then show ?thesis by (rule that)
  qed
  let ?effStd = "min (std base) MAX_EFFECTIVE_STD"
  let ?c2 = "aMags ! i < mean base + PEAK_SIGMA * ?effStd \<or> aMags ! i < MIN_PEAK_ABS"
  have g2: "\<not> ?c2"
  proof
    assume c: ?c2
    have "detectAll_body det imuData aMags i st = Inr st"
      unfolding body using g1 base c by (simp only: red)
    with run ne show False by simp
  qed
  let ?c3 = "xlt (xsub (Num (real i)) (fst (snd st))) (Num MIN_SHOT_SAMPLES)"
  have g3: "\<not> ?c3"
  proof
    assume c: ?c3
    have "detectAll_body det imuData aMags i st = Inr st"
      unfolding body using g1 base g2 c by (simp only: red)
    with run ne show False by simp
  qed
  let ?sampleTime = "or_else (t (imuData ! i)) (or_else (tRel (imuData ! i)) 0)"
  let ?c4 = "?sampleTime - snd (snd st) < MIN_SHOT_INTERVAL_MS \<and> snd (snd st) > 0"
  have g4: "\<not> ?c4"
  proof
    assume c: ?c4
    have "detectAll_body det imuData aMags i st = Inr st"
      unfolding body using g1 base g2 g3 c by (simp only: red)
    with run ne show False by simp
  qed
  let ?dipIdx = "findDip aMags i (min (length aMags) (i + DIP_SEARCH_WINDOW))"
  let ?c5 = "aMags ! ?dipIdx > mean base - DIP_SIGMA * std base \<or> aMags ! ?dipIdx > MAX_DIP_ABS"
  have g5: "\<not> ?c5"
  proof
    assume c: ?c5
    have "detectAll_body det imuData aMags i st = Inr st"
      unfolding body using g1 base g2 g3 g4 c by (simp only: red)
    with run ne show False by simp
  qed
  let ?c6 = "aMags ! i - aMags ! ?dipIdx
               < max MIN_PEAK_TO_DIP_ABS (?effStd * PEAK_TO_DIP_SIGMA)"
  have g6: "\<not> ?c6"
  proof
    assume c: ?c6
    have "detectAll_body det imuData aMags i st = Inr st"
      unfolding body using g1 base g2 g3 g4 g5 c by (simp only: red)
    with run ne show False by simp
  qed
  let ?recEnd = "min (length aMags) (?dipIdx + RECOVERY_SEARCH_WINDOW)"
  let ?c7 = "?dipIdx + 1 \<ge> ?recEnd"
  have g7: "\<not> ?c7"
  proof
    assume c: ?c7
    have "detectAll_body det imuData aMags i st = Inr st"
      unfolding body using g1 base g2 g3 g4 g5 g6 c by (simp only: red)
    with run ne show False by simp
  qed
  let ?recIdx = "findRec aMags ?dipIdx ?recEnd"
  let ?c8 = "aMags ! ?recIdx < mean base + RECOVERY_SIGMA * ?effStd
               \<or> aMags ! ?recIdx - aMags ! ?dipIdx < MIN_RISE_FROM_DIP"
  have g8: "\<not> ?c8"
  proof
    assume c: ?c8
    have "detectAll_body det imuData aMags i st = Inr st"
      unfolding body using g1 base g2 g3 g4 g5 g6 g7 c by (simp only: red)
    with run ne show False by simp
  qed
  have pass: "passes aMags (length aMags) i base ?dipIdx ?recIdx"
    using g1 g2 g5 g6 g7 g8 unfolding passes_def by (simp add: not_less not_le)
  let ?calib = "calibrationFilter det imuData i ?dipIdx ?recIdx (mean base)"
  have "case consensusFilter det aMags i ?dipIdx ?recIdx of
          Inl e \<Rightarrow> R = Inl e
        | Inr cons \<Rightarrow>
            R = Inr (fst st @ [\<lparr>idx = i, bufferIdx = None, mag = aMags ! i,
                      dipMag = aMags ! ?dipIdx, recoveryMag = aMags ! ?recIdx,
                      shot_range = aMags ! i - aMags ! ?dipIdx,
                      shot_t = t (imuData ! i), shot_tRel = tRel (imuData ! i),
                      consensus = cons, calibResult = ?calib\<rparr>],
                    Num (real i), ?sampleTime)"
  proof (cases "consensusFilter det aMags i ?dipIdx ?recIdx")
    case (Inl e)
    have "detectAll_body det imuData aMags i st = Inl e"
      unfolding body using g1 base g2 g3 g4 g5 g6 g7 g8 Inl by (simp only: red)
    with run Inl show ?thesis by simp
  next
    case (Inr cons)
    let ?c9 = "case cons of Some c \<Rightarrow> \<not> isShot c | None \<Rightarrow> False"
    have g9: "\<not> ?c9"
    proof
      assume c: ?c9
      have "detectAll_body det imuData aMags i st = Inr st"
        unfolding body using g1 base g2 g3 g4 g5 g6 g7 g8 Inr c by (simp only: red)
      with run ne show False by simp
    qed
    let ?c10 = "case ?calib of Some r \<Rightarrow> \<not> cls_isShot r | None \<Rightarrow> False"
    have g10: "\<not> ?c10"
    proof
      assume c: ?c10
      have "detectAll_body det imuData aMags i st = Inr st"
        unfolding body using g1 base g2 g3 g4 g5 g6 g7 g8 Inr g9 c by (simp only: red)
      with run ne show False by simp
    qed
    have "detectAll_body det imuData aMags i st =
            Inr (fst st @ [\<lparr>idx = i, bufferIdx = None, mag = aMags ! i,
                      dipMag = aMags ! ?dipIdx, recoveryMag = aMags ! ?recIdx,
                      shot_range = aMags ! i - aMags ! ?dipIdx,
                      shot_t = t (imuData ! i), shot_tRel = tRel (imuData ! i),
                      consensus = cons, calibResult = ?calib\<rparr>],
                  Num (real i), ?sampleTime)"
      unfolding body using g1 base g2 g3 g4 g5 g6 g7 g8 Inr g9 g10 by (simp only: red)
    with run Inr show ?thesis by simp
  qed
  with base pass g3 g4 show ?thesis unfolding sampleTime_def by blast
qed

lemma detectAll_body_Inr:
  assumes "detectAll_body det imuData aMags i st = Inr st'"
  shows "st' = st \<or>
    (\<exists>base dipIdx recIdx cons.
       baseline aMags (i - BASELINE_OFFSET) = Some base
       \<and> passes aMags (length aMags) i base dipIdx recIdx
       \<and> \<not> xlt (xsub (Num (real i)) (fst (snd st))) (Num MIN_SHOT_SAMPLES)
       \<and> st' = (fst st @ [\<lparr>idx = i, bufferIdx = None, mag = aMags ! i,
                      dipMag = aMags ! dipIdx, recoveryMag = aMags ! recIdx,
                      shot_range = aMags ! i - aMags ! dipIdx,
                      shot_t = t (imuData ! i), shot_tRel = tRel (imuData ! i),
                      consensus = cons,
                      calibResult = calibrationFilter det imuData i dipIdx recIdx (mean base)\<rparr>],
                 Num (real i),
                 or_else (t (imuData ! i)) (or_else (tRel (imuData ! i)) 0)))"
proof -
  from detectAll_body_cases [OF assms] show ?thesis
  proof (elim disjE exE conjE)
    assume "Inr st' = Inr st"
    then show ?thesis by simp
  next
    fix base dipIdx recIdx
    assume h: "baseline aMags (i - BASELINE_OFFSET) = Some base"
      "passes aMags (length aMags) i base dipIdx recIdx"
      "\<not> xlt (xsub (Num (real i)) (fst (snd st))) (Num MIN_SHOT_SAMPLES)"
    assume c: "case consensusFilter det aMags i dipIdx recIdx of
        Inl e \<Rightarrow> Inr st' = Inl e
      | Inr cons \<Rightarrow>
          Inr st' = Inr (fst st @ [\<lparr>idx = i, bufferIdx = None, mag = aMags ! i,
                      dipMag = aMags ! dipIdx, recoveryMag = aMags ! recIdx,
                      shot_range = aMags ! i - aMags ! dipIdx,
                      shot_t = t (imuData ! i), shot_tRel = tRel (imuData ! i),
                      consensus = cons,
                      calibResult = calibrationFilter det imuData i dipIdx recIdx (mean base)\<rparr>],
                 Num (real i),
                 or_else (t (imuData ! i)) (or_else (tRel (imuData ! i)) 0))"
    show ?thesis
    proof (cases "consensusFilter det aMags i dipIdx recIdx")
      case (Inl e)
      with c show ?thesis by simp
    next
      case (Inr cons)
      with c h show ?thesis by (intro disjI2 exI [of _ base] exI [of _ dipIdx] exI [of _ recIdx] exI [of _ cons]) simp
    qed
  qed
qed

lemma detectAll_body_Inl:
  assumes "detectAll_body det imuData aMags i st = Inl e"
  shows "consensusFilter det aMags i
           (findDip aMags i (min (length aMags) (i + DIP_SEARCH_WINDOW)))
           (findRec aMags (findDip aMags i (min (length aMags) (i + DIP_SEARCH_WINDOW)))
              (min (length aMags)
                 (findDip aMags i (min (length aMags) (i + DIP_SEARCH_WINDOW))
                  + RECOVERY_SEARCH_WINDOW))) = Inl e"
proof -
  from detectAll_body_cases [OF assms] show ?thesis
  proof (elim disjE exE conjE)
    assume "Inl e = Inr st"
    then show ?thesis by simp
  next
    fix base dipIdx recIdx
    assume p: "passes aMags (length aMags) i base dipIdx recIdx"
    assume c: "case consensusFilter det aMags i dipIdx recIdx of
        Inl e' \<Rightarrow> Inl e = Inl e'
      | Inr cons \<Rightarrow>
          Inl e = Inr (fst st @ [\<lparr>idx = i, bufferIdx = None, mag = aMags ! i,
                      dipMag = aMags ! dipIdx, recoveryMag = aMags ! recIdx,
                      shot_range = aMags ! i - aMags ! dipIdx,
                      shot_t = t (imuData ! i), shot_tRel = tRel (imuData ! i),
                      consensus = cons,
                      calibResult = calibrationFilter det imuData i dipIdx recIdx (mean base)\<rparr>],
                 Num (real i),
                 or_else (t (imuData ! i)) (or_else (tRel (imuData ! i)) 0))"
    from p have d: "dipIdx = findDip aMags i (min (length aMags) (i + DIP_SEARCH_WINDOW))"
      and r: "recIdx = findRec aMags dipIdx (min (length aMags) (dipIdx + RECOVERY_SEARCH_WINDOW))"
      by (simp_all add: passes_def)
    from c have "consensusFilter det aMags i dipIdx recIdx = Inl e"
      by (cases "consensusFilter det aMags i dipIdx recIdx") simp_all
    then show ?thesis unfolding r unfolding d .
  qed
qed

text \<open>
  The same for a call of \<^verbatim>\<open>_checkCandidate\<close>: \<^verbatim>\<open>null\<close> with the detector as it
  was, or all gates have passed and the call throws, or rejects in a post-filter, or
  returns the shot and sets the two fields.
\<close>

lemma checkCandidate_cases:
  assumes run: "checkCandidate det aMags i len now buffer = R"
  shows "R = Inr (None, det) \<or>
    (\<exists>base dipIdx recIdx.
       baseline aMags (i - BASELINE_OFFSET) = Some base
       \<and> passes aMags len i base dipIdx recIdx
       \<and> i + 1 < min len (i + DIP_SEARCH_WINDOW)
       \<and> \<not> xlt (xsub (Num (real (absIndex buffer i))) (lastShotIdx det)) (Num MIN_SHOT_SAMPLES)
       \<and> \<not> (now - lastShotTime det < MIN_SHOT_INTERVAL_MS \<and> lastShotTime det > 0)
       \<and> (case consensusFilter det aMags i dipIdx recIdx of
             Inl e \<Rightarrow> R = Inl e
           | Inr cons \<Rightarrow>
               R = Inr (Some \<lparr>idx = absIndex buffer i, bufferIdx = Some i, mag = aMags ! i,
                      dipMag = aMags ! dipIdx, recoveryMag = aMags ! recIdx,
                      shot_range = aMags ! i - aMags ! dipIdx,
                      shot_t = Some now, shot_tRel = None,
                      consensus = cons,
                      calibResult =
                        calibrationFilter det (data buffer) i dipIdx recIdx (mean base)\<rparr>,
                    det\<lparr>lastShotTime := now,
                        lastShotIdx := Num (real (absIndex buffer i))\<rparr>)))"
proof (cases "R = Inr (None, det)")
  case True
  then show ?thesis by simp
next
  case ne: False
  note body = checkCandidate_def Let_def
  note red = simp_thms if_True if_False option.case sum.case
  let ?c1 = "aMags ! i \<le> aMags ! (i - 1) \<or> aMags ! i < aMags ! (i + 1)"
  have g1: "\<not> ?c1"
  proof
    assume c: ?c1
    have "checkCandidate det aMags i len now buffer = Inr (None, det)"
      unfolding body using c by (simp only: red)
    with run ne show False by simp
  qed
  obtain base where base: "baseline aMags (i - BASELINE_OFFSET) = Some base"
  proof (cases "baseline aMags (i - BASELINE_OFFSET)")
    case None
    have "checkCandidate det aMags i len now buffer = Inr (None, det)"
      unfolding body using g1 None by (simp only: red)
    with run ne show ?thesis by simp
  next
    case (Some b)
    then show ?thesis by (rule that)
  qed
  let ?effStd = "min (std base) MAX_EFFECTIVE_STD"
  let ?c2 = "aMags ! i < mean base + PEAK_SIGMA * ?effStd \<or> aMags ! i < MIN_PEAK_ABS"
  have g2: "\<not> ?c2"
  proof
    assume c: ?c2
    have "checkCandidate det aMags i len now buffer = Inr (None, det)"
      unfolding body using g1 base c by (simp only: red)
    with run ne show False by simp
  qed
  let ?c3 = "xlt (xsub (Num (real (absIndex buffer i))) (lastShotIdx det)) (Num MIN_SHOT_SAMPLES)"
  have g3: "\<not> ?c3"
  proof
    assume c: ?c3
    have "checkCandidate det aMags i len now buffer = Inr (None, det)"
      unfolding body using g1 base g2 c by (simp only: red)
    with run ne show False by simp
  qed
  let ?c4 = "now - lastShotTime det < MIN_SHOT_INTERVAL_MS \<and> lastShotTime det > 0"
  have g4: "\<not> ?c4"
  proof
    assume c: ?c4
    have "checkCandidate det aMags i len now buffer = Inr (None, det)"
      unfolding body using g1 base g2 g3 c by (simp only: red)
    with run ne show False by simp
  qed
  let ?dipEnd = "min len (i + DIP_SEARCH_WINDOW)"
  let ?c4b = "i + 1 \<ge> ?dipEnd"
  have g4b: "\<not> ?c4b"
  proof
    assume c: ?c4b
    have "checkCandidate det aMags i len now buffer = Inr (None, det)"
      unfolding body using g1 base g2 g3 g4 c by (simp only: red)
    with run ne show False by simp
  qed
  let ?dipIdx = "findDip aMags i ?dipEnd"
  let ?c5 = "aMags ! ?dipIdx > mean base - DIP_SIGMA * std base \<or> aMags ! ?dipIdx > MAX_DIP_ABS"
  have g5: "\<not> ?c5"
  proof
    assume c: ?c5
    have "checkCandidate det aMags i len now buffer = Inr (None, det)"
      unfolding body using g1 base g2 g3 g4 g4b c by (simp only: red)
    with run ne show False by simp
  qed
  let ?c6 = "aMags ! i - aMags ! ?dipIdx
               < max MIN_PEAK_TO_DIP_ABS (?effStd * PEAK_TO_DIP_SIGMA)"
  have g6: "\<not> ?c6"
  proof
    assume c: ?c6
    have "checkCandidate det aMags i len now buffer = Inr (None, det)"
      unfolding body using g1 base g2 g3 g4 g4b g5 c by (simp only: red)
    with run ne show False by simp
  qed
  let ?recEnd = "min len (?dipIdx + RECOVERY_SEARCH_WINDOW)"
  let ?c7 = "?dipIdx + 1 \<ge> ?recEnd"
  have g7: "\<not> ?c7"
  proof
    assume c: ?c7
    have "checkCandidate det aMags i len now buffer = Inr (None, det)"
      unfolding body using g1 base g2 g3 g4 g4b g5 g6 c by (simp only: red)
    with run ne show False by simp
  qed
  let ?recIdx = "findRec aMags ?dipIdx ?recEnd"
  let ?c8 = "aMags ! ?recIdx < mean base + RECOVERY_SIGMA * ?effStd
               \<or> aMags ! ?recIdx - aMags ! ?dipIdx < MIN_RISE_FROM_DIP"
  have g8: "\<not> ?c8"
  proof
    assume c: ?c8
    have "checkCandidate det aMags i len now buffer = Inr (None, det)"
      unfolding body using g1 base g2 g3 g4 g4b g5 g6 g7 c by (simp only: red)
    with run ne show False by simp
  qed
  have pass: "passes aMags len i base ?dipIdx ?recIdx"
    using g1 g2 g5 g6 g7 g8 unfolding passes_def by (simp add: not_less not_le)
  have dipEnd: "i + 1 < ?dipEnd" using g4b by (simp only: not_le)
  let ?calib = "calibrationFilter det (data buffer) i ?dipIdx ?recIdx (mean base)"
  let ?shot = "\<lambda>cons. \<lparr>idx = absIndex buffer i, bufferIdx = Some i, mag = aMags ! i,
                      dipMag = aMags ! ?dipIdx, recoveryMag = aMags ! ?recIdx,
                      shot_range = aMags ! i - aMags ! ?dipIdx,
                      shot_t = Some now, shot_tRel = None,
                      consensus = cons, calibResult = ?calib\<rparr>"
  have "case consensusFilter det aMags i ?dipIdx ?recIdx of
          Inl e \<Rightarrow> R = Inl e
        | Inr cons \<Rightarrow>
            R = Inr (Some (?shot cons),
                     det\<lparr>lastShotTime := now, lastShotIdx := Num (real (absIndex buffer i))\<rparr>)"
  proof (cases "consensusFilter det aMags i ?dipIdx ?recIdx")
    case (Inl e)
    have "checkCandidate det aMags i len now buffer = Inl e"
      unfolding body using g1 base g2 g3 g4 g4b g5 g6 g7 g8 Inl by (simp only: red)
    with run Inl show ?thesis by simp
  next
    case (Inr cons)
    let ?c9 = "case cons of Some c \<Rightarrow> \<not> isShot c | None \<Rightarrow> False"
    have g9: "\<not> ?c9"
    proof
      assume c: ?c9
      have "checkCandidate det aMags i len now buffer = Inr (None, det)"
        unfolding body using g1 base g2 g3 g4 g4b g5 g6 g7 g8 Inr c by (simp only: red)
      with run ne show False by simp
    qed
    let ?c10 = "case ?calib of Some r \<Rightarrow> \<not> cls_isShot r | None \<Rightarrow> False"
    have g10: "\<not> ?c10"
    proof
      assume c: ?c10
      have "checkCandidate det aMags i len now buffer = Inr (None, det)"
        unfolding body using g1 base g2 g3 g4 g4b g5 g6 g7 g8 Inr g9 c by (simp only: red)
      with run ne show False by simp
    qed
    have "checkCandidate det aMags i len now buffer =
            Inr (Some (?shot cons),
                 det\<lparr>lastShotTime := now, lastShotIdx := Num (real (absIndex buffer i))\<rparr>)"
      unfolding body using g1 base g2 g3 g4 g4b g5 g6 g7 g8 Inr g9 g10 by (simp only: red)
    with run Inr show ?thesis by simp
  qed
  with base pass dipEnd g3 g4 show ?thesis by blast
qed

lemma checkCandidate_Inr:
  assumes "checkCandidate det aMags i len now buffer = Inr r"
  shows "r = (None, det) \<or>
    (\<exists>base dipIdx recIdx cons.
       baseline aMags (i - BASELINE_OFFSET) = Some base
       \<and> passes aMags len i base dipIdx recIdx
       \<and> i + 1 < min len (i + DIP_SEARCH_WINDOW)
       \<and> \<not> xlt (xsub (Num (real (absIndex buffer i))) (lastShotIdx det)) (Num MIN_SHOT_SAMPLES)
       \<and> \<not> (now - lastShotTime det < MIN_SHOT_INTERVAL_MS \<and> lastShotTime det > 0)
       \<and> r = (Some \<lparr>idx = absIndex buffer i, bufferIdx = Some i, mag = aMags ! i,
                      dipMag = aMags ! dipIdx, recoveryMag = aMags ! recIdx,
                      shot_range = aMags ! i - aMags ! dipIdx,
                      shot_t = Some now, shot_tRel = None,
                      consensus = cons,
                      calibResult =
                        calibrationFilter det (data buffer) i dipIdx recIdx (mean base)\<rparr>,
               det\<lparr>lastShotTime := now, lastShotIdx := Num (real (absIndex buffer i))\<rparr>))"
proof -
  from checkCandidate_cases [OF assms] show ?thesis
  proof (elim disjE exE conjE)
    assume "Inr r = Inr (None, det)"
    then show ?thesis by simp
  next
    fix base dipIdx recIdx
    assume h: "baseline aMags (i - BASELINE_OFFSET) = Some base"
      "passes aMags len i base dipIdx recIdx"
      "i + 1 < min len (i + DIP_SEARCH_WINDOW)"
      "\<not> xlt (xsub (Num (real (absIndex buffer i))) (lastShotIdx det)) (Num MIN_SHOT_SAMPLES)"
      "\<not> (now - lastShotTime det < MIN_SHOT_INTERVAL_MS \<and> lastShotTime det > 0)"
    assume c: "case consensusFilter det aMags i dipIdx recIdx of
        Inl e \<Rightarrow> Inr r = Inl e
      | Inr cons \<Rightarrow>
          Inr r = Inr (Some \<lparr>idx = absIndex buffer i, bufferIdx = Some i, mag = aMags ! i,
                      dipMag = aMags ! dipIdx, recoveryMag = aMags ! recIdx,
                      shot_range = aMags ! i - aMags ! dipIdx,
                      shot_t = Some now, shot_tRel = None,
                      consensus = cons,
                      calibResult =
                        calibrationFilter det (data buffer) i dipIdx recIdx (mean base)\<rparr>,
               det\<lparr>lastShotTime := now, lastShotIdx := Num (real (absIndex buffer i))\<rparr>)"
    show ?thesis
    proof (cases "consensusFilter det aMags i dipIdx recIdx")
      case (Inl e)
      with c show ?thesis by simp
    next
      case (Inr cons)
      with c h show ?thesis
        by (intro disjI2 exI [of _ base] exI [of _ dipIdx] exI [of _ recIdx] exI [of _ cons]) simp
    qed
  qed
qed

lemma checkCandidate_Inl:
  assumes "checkCandidate det aMags i len now buffer = Inl e"
  shows "i + 1 < min len (i + DIP_SEARCH_WINDOW) \<and>
         (\<exists>recIdx. consensusFilter det aMags i
            (findDip aMags i (min len (i + DIP_SEARCH_WINDOW))) recIdx = Inl e)"
proof -
  from checkCandidate_cases [OF assms] show ?thesis
  proof (elim disjE exE conjE)
    assume "Inl e = Inr (None, det)"
    then show ?thesis by simp
  next
    fix base dipIdx recIdx
    assume p: "passes aMags len i base dipIdx recIdx"
      and l: "i + 1 < min len (i + DIP_SEARCH_WINDOW)"
    assume c: "case consensusFilter det aMags i dipIdx recIdx of
        Inl e' \<Rightarrow> Inl e = Inl e'
      | Inr cons \<Rightarrow>
          Inl e = Inr (Some \<lparr>idx = absIndex buffer i, bufferIdx = Some i, mag = aMags ! i,
                      dipMag = aMags ! dipIdx, recoveryMag = aMags ! recIdx,
                      shot_range = aMags ! i - aMags ! dipIdx,
                      shot_t = Some now, shot_tRel = None,
                      consensus = cons,
                      calibResult =
                        calibrationFilter det (data buffer) i dipIdx recIdx (mean base)\<rparr>,
               det\<lparr>lastShotTime := now, lastShotIdx := Num (real (absIndex buffer i))\<rparr>)"
    from p have d: "dipIdx = findDip aMags i (min len (i + DIP_SEARCH_WINDOW))"
      by (simp add: passes_def)
    from c have "consensusFilter det aMags i dipIdx recIdx = Inl e"
      by (cases "consensusFilter det aMags i dipIdx recIdx") simp_all
    with l show ?thesis unfolding d by blast
  qed
qed

subsection \<open>The two searches\<close>

lemma fold_argmin:
  fixes xs :: "real list"
  defines "f \<equiv> \<lambda>j d. if xs ! j < xs ! d then j else d"
  shows "fold f js d \<in> set (d # js) \<and> (\<forall>j \<in> set (d # js). xs ! fold f js d \<le> xs ! j)"
proof (induction js arbitrary: d)
  case Nil
  then show ?case by simp
next
  case (Cons k js)
  have IH: "fold f js (f k d) \<in> set (f k d # js)
            \<and> (\<forall>j \<in> set (f k d # js). xs ! fold f js (f k d) \<le> xs ! j)"
    by (rule Cons.IH)
  have fk: "f k d \<in> {k, d}" "xs ! f k d \<le> xs ! k" "xs ! f k d \<le> xs ! d"
    by (auto simp: f_def)
  from IH fk show ?case by (auto intro: order_trans)
qed

lemma fold_argmax:
  fixes xs :: "real list"
  defines "f \<equiv> \<lambda>j d. if xs ! j > xs ! d then j else d"
  shows "fold f js d \<in> set (d # js) \<and> (\<forall>j \<in> set (d # js). xs ! j \<le> xs ! fold f js d)"
proof (induction js arbitrary: d)
  case Nil
  then show ?case by simp
next
  case (Cons k js)
  have IH: "fold f js (f k d) \<in> set (f k d # js)
            \<and> (\<forall>j \<in> set (f k d # js). xs ! j \<le> xs ! fold f js (f k d))"
    by (rule Cons.IH)
  have fk: "f k d \<in> {k, d}" "xs ! k \<le> xs ! f k d" "xs ! d \<le> xs ! f k d"
    by (auto simp: f_def)
  from IH fk show ?case by (auto intro: order_trans)
qed

lemma findDip_props:
  assumes "i + 1 < e"
  shows "i < findDip aMags i e" "findDip aMags i e < e"
    "\<And>j. i < j \<Longrightarrow> j < e \<Longrightarrow> aMags ! findDip aMags i e \<le> aMags ! j"
proof -
  have s: "set ((i + 1) # [i + 1 ..< e]) = {j. i < j \<and> j < e}"
    using assms by auto
  from fold_argmin [of aMags "[i + 1 ..< e]" "i + 1"]
  have "findDip aMags i e \<in> {j. i < j \<and> j < e}"
    and "\<forall>j \<in> {j. i < j \<and> j < e}. aMags ! findDip aMags i e \<le> aMags ! j"
    unfolding findDip_def s by blast+
  then show "i < findDip aMags i e" "findDip aMags i e < e"
    "\<And>j. i < j \<Longrightarrow> j < e \<Longrightarrow> aMags ! findDip aMags i e \<le> aMags ! j"
    by auto
qed

lemma findRec_props:
  assumes "d + 1 < e"
  shows "d < findRec aMags d e" "findRec aMags d e < e"
    "\<And>j. d < j \<Longrightarrow> j < e \<Longrightarrow> aMags ! j \<le> aMags ! findRec aMags d e"
proof -
  have s: "set ((d + 1) # [d + 1 ..< e]) = {j. d < j \<and> j < e}"
    using assms by auto
  from fold_argmax [of aMags "[d + 1 ..< e]" "d + 1"]
  have "findRec aMags d e \<in> {j. d < j \<and> j < e}"
    and "\<forall>j \<in> {j. d < j \<and> j < e}. aMags ! j \<le> aMags ! findRec aMags d e"
    unfolding findRec_def s by blast+
  then show "d < findRec aMags d e" "findRec aMags d e < e"
    "\<And>j. d < j \<Longrightarrow> j < e \<Longrightarrow> aMags ! j \<le> aMags ! findRec aMags d e"
    by auto
qed

subsection \<open>The post-filters do not throw on candidates inside the signal\<close>

lemma consensusFilter_in_range:
  "dipIdx < length aMags \<Longrightarrow> \<exists>c. consensusFilter det aMags i dipIdx recIdx = Inr c"
  using evaluate_in_range [of dipIdx aMags i "consensusOpts det" recIdx]
  by (auto simp: consensusFilter_def)

subsection \<open>The separation gate\<close>

lemma sep_gate_mono:
  "\<not> xlt (xsub (Num a) L) (Num c) \<Longrightarrow> a \<le> b \<Longrightarrow> \<not> xlt (xsub (Num b) L) (Num c)"
  by (cases L) (auto simp: xsub_def)

lemma sep_gate_Num:
  "\<not> xlt (xsub (Num (real i)) (Num (real l))) (Num MIN_SHOT_SAMPLES) \<longleftrightarrow> l + 60 \<le> i"
  by (auto simp: xsub_def MIN_SHOT_SAMPLES_def)

lemma sep_gate_NegInf [simp]:
  "\<not> xlt (xsub (Num a) NegInf) (Num c)"
  by (simp add: xsub_def)

subsection \<open>The batch loop\<close>

text \<open>A property of the loop state that every pass of the body keeps holds after the loop.\<close>

lemma detectAll_loop_invariant:
  assumes "detectAll_loop det imuData aMags js st = Inr st'"
    and "I st"
    and "\<And>i s s'. i \<in> set js \<Longrightarrow> I s \<Longrightarrow> detectAll_body det imuData aMags i s = Inr s' \<Longrightarrow> I s'"
  shows "I st'"
  using assms
proof (induction js arbitrary: st)
  case Nil
  then show ?case by simp
next
  case (Cons i js)
  from Cons.prems(1) obtain s1 where
    b: "detectAll_body det imuData aMags i st = Inr s1" and
    l: "detectAll_loop det imuData aMags js s1 = Inr st'"
    by (cases "detectAll_body det imuData aMags i st") simp_all
  have s1: "I s1" by (rule Cons.prems(3) [OF _ Cons.prems(2) b]) simp
  show ?case
  proof (rule Cons.IH [OF l s1])
    fix k s s'
    assume "k \<in> set js" "I s" "detectAll_body det imuData aMags k s = Inr s'"
    then show "I s'" using Cons.prems(3) [of k s s'] by simp
  qed
qed

lemma detectAll_loop_no_throw:
  assumes "\<forall>i \<in> set js. i + 1 < length aMags"
  shows "\<exists>st'. detectAll_loop det imuData aMags js st = Inr st'"
  using assms
proof (induction js arbitrary: st)
  case Nil
  show ?case by (intro exI [of _ st]) simp
next
  case (Cons i js)
  then have i: "i + 1 < length aMags" by simp
  have "\<exists>s1. detectAll_body det imuData aMags i st = Inr s1"
  proof (cases "detectAll_body det imuData aMags i st")
    case (Inr s1)
    then show ?thesis by blast
  next
    case (Inl e)
    let ?d = "findDip aMags i (min (length aMags) (i + DIP_SEARCH_WINDOW))"
    have "i + 1 < min (length aMags) (i + DIP_SEARCH_WINDOW)"
      using i by (simp add: DIP_SEARCH_WINDOW_def)
    from findDip_props(2) [OF this] have d: "?d < length aMags" by simp
    let ?r = "findRec aMags ?d (min (length aMags) (?d + RECOVERY_SEARCH_WINDOW))"
    have "\<exists>c. consensusFilter det aMags i ?d ?r = Inr c"
      using d by (rule consensusFilter_in_range)
    with detectAll_body_Inl [OF Inl] show ?thesis by simp
  qed
  then obtain s1 where b: "detectAll_body det imuData aMags i st = Inr s1" by blast
  from Cons.IH [of s1] Cons.prems obtain st' where
    "detectAll_loop det imuData aMags js s1 = Inr st'" by auto
  with b show ?case by (intro exI [of _ st']) simp
qed

text \<open>\<^verbatim>\<open>detectAll\<close> returns a list for every detector configuration and every array.\<close>

lemma detectAll_returns: "\<exists>shots. detectAll det imuData = Inr shots"
proof -
  let ?aMags = "map aMag imuData"
  let ?js = "[BASELINE_WINDOW + BASELINE_OFFSET ..<
              length ?aMags - DIP_SEARCH_WINDOW - RECOVERY_SEARCH_WINDOW]"
  have "\<forall>i \<in> set ?js. i + 1 < length ?aMags"
    by (auto simp: DIP_SEARCH_WINDOW_def RECOVERY_SEARCH_WINDOW_def)
  from detectAll_loop_no_throw [OF this] obtain st' where
    "detectAll_loop det imuData ?aMags ?js ([], NegInf, 0) = Inr st'" by blast
  then show ?thesis by (simp add: detectAll_def Let_def)
qed

text \<open>
  What holds of a recorded batch shot: it sits at a scanned index, it carries the
  values of the signal at the peak, the dip and the recovery, and all gates passed.
\<close>

lemma detectAll_loop_shots:
  assumes "detectAll_loop det imuData aMags js st = Inr st'"
    and "\<forall>s \<in> set (fst st). P s"
    and "\<And>i base dipIdx recIdx cons calib. i \<in> set js \<Longrightarrow>
           baseline aMags (i - BASELINE_OFFSET) = Some base \<Longrightarrow>
           passes aMags (length aMags) i base dipIdx recIdx \<Longrightarrow>
           P \<lparr>idx = i, bufferIdx = None, mag = aMags ! i,
              dipMag = aMags ! dipIdx, recoveryMag = aMags ! recIdx,
              shot_range = aMags ! i - aMags ! dipIdx,
              shot_t = t (imuData ! i), shot_tRel = tRel (imuData ! i),
              consensus = cons, calibResult = calib\<rparr>"
  shows "\<forall>s \<in> set (fst st'). P s"
proof (rule detectAll_loop_invariant [OF assms(1), where I = "\<lambda>st. \<forall>s \<in> set (fst st). P s"])
  show "\<forall>s \<in> set (fst st). P s" by (rule assms(2))
next
  fix i s s'
  assume i: "i \<in> set js" and I: "\<forall>x \<in> set (fst s). P x"
    and b: "detectAll_body det imuData aMags i s = Inr s'"
  from detectAll_body_Inr [OF b] show "\<forall>x \<in> set (fst s'). P x"
  proof (elim disjE exE conjE)
    assume "s' = s"
    with I show ?thesis by simp
  next
    fix base dipIdx recIdx cons
    assume h: "baseline aMags (i - BASELINE_OFFSET) = Some base"
      "passes aMags (length aMags) i base dipIdx recIdx"
    assume s': "s' = (fst s @ [\<lparr>idx = i, bufferIdx = None, mag = aMags ! i,
                      dipMag = aMags ! dipIdx, recoveryMag = aMags ! recIdx,
                      shot_range = aMags ! i - aMags ! dipIdx,
                      shot_t = t (imuData ! i), shot_tRel = tRel (imuData ! i),
                      consensus = cons,
                      calibResult = calibrationFilter det imuData i dipIdx recIdx (mean base)\<rparr>],
                 Num (real i),
                 or_else (t (imuData ! i)) (or_else (tRel (imuData ! i)) 0))"
    from assms(3) [OF i h] I show ?thesis unfolding s' by simp
  qed
qed

text \<open>Separation in the batch loop: the recorded peaks are at least 60 samples apart.\<close>

lemma detectAll_loop_separation:
  assumes "detectAll_loop det imuData aMags js st = Inr st'"
    and "sorted_wrt (\<lambda>a b. idx a + 60 \<le> idx b) (fst st)"
    and "\<forall>s \<in> set (fst st). \<exists>l. fst (snd st) = Num (real l) \<and> idx s \<le> l"
  shows "sorted_wrt (\<lambda>a b. idx a + 60 \<le> idx b) (fst st')"
proof -
  let ?I = "\<lambda>st. sorted_wrt (\<lambda>a b. idx a + 60 \<le> idx b) (fst st)
              \<and> (\<forall>s \<in> set (fst st). \<exists>l. fst (snd st) = Num (real l) \<and> idx s \<le> l)"
  have "?I st'"
  proof (rule detectAll_loop_invariant [OF assms(1), where I = ?I])
    show "?I st" using assms(2,3) by simp
  next
    fix i s s'
    assume I: "?I s" and b: "detectAll_body det imuData aMags i s = Inr s'"
    from detectAll_body_Inr [OF b] show "?I s'"
    proof (elim disjE exE conjE)
      assume "s' = s"
      with I show ?thesis by simp
    next
      fix base dipIdx recIdx cons
      let ?x = "\<lparr>idx = i, bufferIdx = None, mag = aMags ! i,
                      dipMag = aMags ! dipIdx, recoveryMag = aMags ! recIdx,
                      shot_range = aMags ! i - aMags ! dipIdx,
                      shot_t = t (imuData ! i), shot_tRel = tRel (imuData ! i),
                      consensus = cons,
                      calibResult = calibrationFilter det imuData i dipIdx recIdx (mean base)\<rparr>"
      assume g: "\<not> xlt (xsub (Num (real i)) (fst (snd s))) (Num MIN_SHOT_SAMPLES)"
      assume s': "s' = (fst s @ [?x], Num (real i),
                 or_else (t (imuData ! i)) (or_else (tRel (imuData ! i)) 0))"
      have old: "idx y + 60 \<le> i" if "y \<in> set (fst s)" for y
      proof -
        from I that obtain l where l: "fst (snd s) = Num (real l)" "idx y \<le> l" by blast
        from g have "l + 60 \<le> i" unfolding l(1) sep_gate_Num .
        with l(2) show ?thesis by simp
      qed
      have "sorted_wrt (\<lambda>a b. idx a + 60 \<le> idx b) (fst s @ [?x])"
        using I old by (simp add: sorted_wrt_append)
      moreover have "\<exists>l. Num (real i) = Num (real l) \<and> idx y \<le> l"
        if "y \<in> set (fst s @ [?x])" for y
      proof -
        from that old have "idx y \<le> i" by fastforce
        then show ?thesis by blast
      qed
      ultimately show ?thesis unfolding s' by simp
    qed
  qed
  then show ?thesis by simp
qed

subsection \<open>The live scan\<close>

lemma checkCandidate_None:
  assumes "checkCandidate det aMags i len now buffer = Inr (None, det')"
  shows "det' = det"
  using checkCandidate_Inr [OF assms] by auto

lemma scan_result:
  assumes "scan det aMags len now buffer js = R"
  shows "R = Inr (None, det) \<or>
         (\<exists>i. i \<in> set js \<and> checkCandidate det aMags i len now buffer = R \<and> R \<noteq> Inr (None, det))"
  using assms
proof (induction js)
  case Nil
  then show ?case by simp
next
  case (Cons i js)
  show ?case
  proof (cases "checkCandidate det aMags i len now buffer")
    case (Inl e)
    with Cons.prems have "R = Inl e" by simp
    with Inl show ?thesis by auto
  next
    case (Inr r)
    show ?thesis
    proof (cases "fst r")
      case (Some s)
      with Inr Cons.prems have "R = Inr (Some s, snd r)" by simp
      moreover from Some have "r = (Some s, snd r)" by (cases r) simp
      ultimately show ?thesis using Inr by auto
    next
      case None
      then have r: "r = (None, snd r)" by (cases r) simp
      with Inr have "checkCandidate det aMags i len now buffer = Inr (None, snd r)" by simp
      then have "snd r = det" by (rule checkCandidate_None)
      with Inr None Cons.prems have "scan det aMags len now buffer js = R" by simp
      from Cons.IH [OF this] show ?thesis by auto
    qed
  qed
qed

lemma processSample_result:
  assumes "ShotDetector_processSample det buffer now = R"
  shows "R = Inr (None, det) \<or>
         (190 \<le> length (data buffer) \<and>
          (\<exists>i. length (data buffer) - 90 \<le> i \<and> i < length (data buffer) - 50
             \<and> checkCandidate det (map aMag (data buffer)) i (length (data buffer)) now buffer = R
             \<and> R \<noteq> Inr (None, det)))"
proof (cases "length (data buffer) < 190")
  case True
  with assms show ?thesis
    by (simp add: ShotDetector_processSample_def buf_length_def SCAN_START_OFFSET_def
        BASELINE_WINDOW_def BASELINE_OFFSET_def)
next
  case False
  with assms have
    "scan det (map aMag (data buffer)) (length (data buffer)) now buffer
       [length (data buffer) - 90 ..< length (data buffer) - 50] = R"
    by (simp add: ShotDetector_processSample_def buf_length_def SCAN_START_OFFSET_def
        BASELINE_WINDOW_def BASELINE_OFFSET_def SCAN_END_OFFSET_def Let_def)
  from scan_result [OF this] False show ?thesis by auto
qed

text \<open>A call of \<^verbatim>\<open>processSample\<close> does not throw.\<close>

lemma processSample_no_throw: "ShotDetector_processSample det buffer now \<noteq> Inl e"
proof
  assume "ShotDetector_processSample det buffer now = Inl e"
  from processSample_result [OF this] obtain i where
    "checkCandidate det (map aMag (data buffer)) i (length (data buffer)) now buffer = Inl e"
    by auto
  from checkCandidate_Inl [OF this] obtain recIdx where
    l: "i + 1 < min (length (data buffer)) (i + DIP_SEARCH_WINDOW)" and
    c: "consensusFilter det (map aMag (data buffer)) i
          (findDip (map aMag (data buffer)) i
             (min (length (data buffer)) (i + DIP_SEARCH_WINDOW))) recIdx = Inl e"
    by blast
  from findDip_props(2) [OF l, of "map aMag (data buffer)"]
  have "findDip (map aMag (data buffer)) i
          (min (length (data buffer)) (i + DIP_SEARCH_WINDOW)) < length (map aMag (data buffer))"
    by simp
  from consensusFilter_in_range [OF this, of det i recIdx] c show False by simp
qed

lemma processSample_returns:
  "\<exists>r det'. ShotDetector_processSample det buffer now = Inr (r, det')"
proof (cases "ShotDetector_processSample det buffer now")
  case (Inl e)
  with processSample_no_throw show ?thesis by blast
next
  case (Inr p)
  then show ?thesis by (cases p) simp
qed

text \<open>What holds when a call of \<^verbatim>\<open>processSample\<close> reports a shot.\<close>

lemma processSample_Some:
  assumes "ShotDetector_processSample det buffer now = Inr (Some s, det')"
  shows "190 \<le> length (data buffer) \<and>
    (\<exists>i base dipIdx recIdx cons.
       length (data buffer) - 90 \<le> i \<and> i < length (data buffer) - 50
       \<and> baseline (map aMag (data buffer)) (i - BASELINE_OFFSET) = Some base
       \<and> passes (map aMag (data buffer)) (length (data buffer)) i base dipIdx recIdx
       \<and> \<not> xlt (xsub (Num (real (absIndex buffer i))) (lastShotIdx det)) (Num MIN_SHOT_SAMPLES)
       \<and> \<not> (now - lastShotTime det < MIN_SHOT_INTERVAL_MS \<and> lastShotTime det > 0)
       \<and> s = \<lparr>idx = absIndex buffer i, bufferIdx = Some i,
               mag = map aMag (data buffer) ! i,
               dipMag = map aMag (data buffer) ! dipIdx,
               recoveryMag = map aMag (data buffer) ! recIdx,
               shot_range = map aMag (data buffer) ! i - map aMag (data buffer) ! dipIdx,
               shot_t = Some now, shot_tRel = None,
               consensus = cons,
               calibResult =
                 calibrationFilter det (data buffer) i dipIdx recIdx (mean base)\<rparr>
       \<and> det' = det\<lparr>lastShotTime := now, lastShotIdx := Num (real (absIndex buffer i))\<rparr>)"
proof -
  from processSample_result [OF assms] obtain i where
    len: "190 \<le> length (data buffer)" and
    i: "length (data buffer) - 90 \<le> i" "i < length (data buffer) - 50" and
    c: "checkCandidate det (map aMag (data buffer)) i (length (data buffer)) now buffer
          = Inr (Some s, det')"
    by auto
  from checkCandidate_Inr [OF c] have
    "\<exists>base dipIdx recIdx cons.
       baseline (map aMag (data buffer)) (i - BASELINE_OFFSET) = Some base
       \<and> passes (map aMag (data buffer)) (length (data buffer)) i base dipIdx recIdx
       \<and> \<not> xlt (xsub (Num (real (absIndex buffer i))) (lastShotIdx det)) (Num MIN_SHOT_SAMPLES)
       \<and> \<not> (now - lastShotTime det < MIN_SHOT_INTERVAL_MS \<and> lastShotTime det > 0)
       \<and> s = \<lparr>idx = absIndex buffer i, bufferIdx = Some i,
               mag = map aMag (data buffer) ! i,
               dipMag = map aMag (data buffer) ! dipIdx,
               recoveryMag = map aMag (data buffer) ! recIdx,
               shot_range = map aMag (data buffer) ! i - map aMag (data buffer) ! dipIdx,
               shot_t = Some now, shot_tRel = None,
               consensus = cons,
               calibResult =
                 calibrationFilter det (data buffer) i dipIdx recIdx (mean base)\<rparr>
       \<and> det' = det\<lparr>lastShotTime := now, lastShotIdx := Num (real (absIndex buffer i))\<rparr>"
  proof (elim disjE exE conjE)
    assume "(Some s, det') = (None, det)"
    then show ?thesis by simp
  next
    fix base dipIdx recIdx cons
    assume "baseline (map aMag (data buffer)) (i - BASELINE_OFFSET) = Some base"
      "passes (map aMag (data buffer)) (length (data buffer)) i base dipIdx recIdx"
      "\<not> xlt (xsub (Num (real (absIndex buffer i))) (lastShotIdx det)) (Num MIN_SHOT_SAMPLES)"
      "\<not> (now - lastShotTime det < MIN_SHOT_INTERVAL_MS \<and> lastShotTime det > 0)"
      "(Some s, det') =
         (Some \<lparr>idx = absIndex buffer i, bufferIdx = Some i,
               mag = map aMag (data buffer) ! i,
               dipMag = map aMag (data buffer) ! dipIdx,
               recoveryMag = map aMag (data buffer) ! recIdx,
               shot_range = map aMag (data buffer) ! i - map aMag (data buffer) ! dipIdx,
               shot_t = Some now, shot_tRel = None,
               consensus = cons,
               calibResult =
                 calibrationFilter det (data buffer) i dipIdx recIdx (mean base)\<rparr>,
          det\<lparr>lastShotTime := now, lastShotIdx := Num (real (absIndex buffer i))\<rparr>)"
    then show ?thesis
      by (intro exI [of _ base] exI [of _ dipIdx] exI [of _ recIdx] exI [of _ cons])
        (simp only: prod.inject option.inject simp_thms)
  qed
  with len i show ?thesis by blast
qed

lemma processSample_None:
  assumes "ShotDetector_processSample det buffer now = Inr (None, det')"
  shows "det' = det"
proof -
  from processSample_result [OF assms] show ?thesis
  proof (elim disjE exE conjE)
    assume "Inr (None, det') = Inr (None, det)"
    then show ?thesis by simp
  next
    fix i
    assume "checkCandidate det (map aMag (data buffer)) i (length (data buffer)) now buffer
              = Inr (None, det')"
    then show ?thesis by (rule checkCandidate_None)
  qed
qed

text \<open>Separation across the calls of a live run.\<close>

lemma liveRun_separation:
  assumes "liveRun det buffer evs = Inr out"
  shows "sorted_wrt (\<lambda>a b. idx a + 60 \<le> idx b) (fst out)
         \<and> (\<forall>s \<in> set (fst out).
               \<not> xlt (xsub (Num (real (idx s))) (lastShotIdx det)) (Num MIN_SHOT_SAMPLES))"
  using assms
proof (induction evs arbitrary: det buffer out)
  case Nil
  then show ?case by auto
next
  case (Cons ev evs)
  let ?b = "push buffer (fst ev)"
  from processSample_returns [of det ?b "snd ev"] obtain r det1 where
    p: "ShotDetector_processSample det ?b (snd ev) = Inr (r, det1)" by blast
  with Cons.prems obtain out1 where
    l: "liveRun det1 ?b evs = Inr out1" and
    out: "fst out = (case r of Some s \<Rightarrow> [s] | None \<Rightarrow> []) @ fst out1"
    by (auto simp: Let_def split: sum.splits)
  note IH = Cons.IH [OF l]
  show ?case
  proof (cases r)
    case None
    with p have "det1 = det" using processSample_None by blast
    with IH out None show ?thesis by simp
  next
    case (Some s)
    from processSample_Some [OF p [unfolded Some]] obtain i where
      g: "\<not> xlt (xsub (Num (real (absIndex ?b i))) (lastShotIdx det)) (Num MIN_SHOT_SAMPLES)"
      and s: "idx s = absIndex ?b i"
      and d: "lastShotIdx det1 = Num (real (absIndex ?b i))"
      by auto
    have later: "idx s + 60 \<le> idx y" if "y \<in> set (fst out1)" for y
    proof -
      from IH that have
        "\<not> xlt (xsub (Num (real (idx y))) (Num (real (idx s)))) (Num MIN_SHOT_SAMPLES)"
        unfolding d s by blast
      then show ?thesis unfolding sep_gate_Num .
    qed
    have "\<not> xlt (xsub (Num (real (idx y))) (lastShotIdx det)) (Num MIN_SHOT_SAMPLES)"
      if "y \<in> set (s # fst out1)" for y
    proof -
      from that later have "real (idx s) \<le> real (idx y)" by fastforce
      with g [folded s] show ?thesis by (rule sep_gate_mono)
    qed
    with IH later out Some show ?thesis by simp
  qed
qed

subsection \<open>Evaluating the detector on the example inputs\<close>

lemmas thresholds = PEAK_SIGMA_def DIP_SIGMA_def RECOVERY_SIGMA_def PEAK_TO_DIP_SIGMA_def
  MIN_PEAK_ABS_def MAX_DIP_ABS_def MIN_RISE_FROM_DIP_def MIN_PEAK_TO_DIP_ABS_def
  BASELINE_WINDOW_def BASELINE_OFFSET_def DIP_SEARCH_WINDOW_def RECOVERY_SEARCH_WINDOW_def
  SCAN_START_OFFSET_def SCAN_END_OFFSET_def MIN_SHOT_INTERVAL_MS_def MIN_SHOT_SAMPLES_def
  MAX_EFFECTIVE_STD_def

lemma smp_simps [simp]:
  "aMag (smp v) = v" "t (smp v) = None" "tRel (smp v) = None"
  by (simp_all add: smp_def)

lemma foldl_add_replicate: "foldl (+) a (replicate n (c::real)) = a + real n * c"
  by (induction n arbitrary: a) (simp_all add: algebra_simps)

lemma foldl_sq_replicate:
  "foldl (\<lambda>a v. a + (v - m)\<^sup>2) a (replicate n (c::real)) = a + real n * (c - m)\<^sup>2"
  by (induction n arbitrary: a) (simp_all add: algebra_simps)

lemma mean_of_replicate: "0 < n \<Longrightarrow> mean_of (replicate n c) = c"
  by (simp add: mean_of_def foldl_add_replicate)

lemma variance_of_replicate: "variance_of (replicate n c) c = 0"
  by (simp add: variance_of_def foldl_sq_replicate)

lemma baseline_flat:
  "slice aMags (e - 80) e = replicate 80 c \<Longrightarrow> baseline aMags e = Some \<lparr>mean = c, std = 0\<rparr>"
  by (simp add: baseline_def BASELINE_WINDOW_def Let_def mean_of_replicate variance_of_replicate)

text \<open>Signal A, batch.\<close>

lemma aMags_A: "map aMag signal_A = replicate 100 10 @ [20, 2, 15] @ replicate 63 10"
  by (simp add: signal_A_def)

lemma base_A: "baseline (map aMag signal_A) 80 = Some \<lparr>mean = 10, std = 0\<rparr>"
  unfolding aMags_A by (rule baseline_flat) (simp add: slice_def)

lemma dip_A: "findDip (map aMag signal_A) 100 135 = 101"
  unfolding aMags_A findDip_def by (simp add: nth_append)

lemma rec_A: "findRec (map aMag signal_A) 101 131 = 102"
  unfolding aMags_A findRec_def by (simp add: nth_append)

lemma body_A:
  "detectAll_body new_ShotDetector signal_A (map aMag signal_A) 100 ([], NegInf, 0)
     = Inr ([shot_A], Num 100, 0)"
proof -
  have nth: "map aMag signal_A ! 100 = 20" "map aMag signal_A ! 99 = 10"
    "map aMag signal_A ! 101 = 2" "map aMag signal_A ! 102 = 15"
    "length (map aMag signal_A) = 166" "signal_A ! 100 = smp 20"
    unfolding aMags_A by (simp_all add: nth_append signal_A_def)
  show ?thesis
    unfolding detectAll_body_def Let_def
    by (simp add: thresholds nth base_A dip_A rec_A xsub_def consensusFilter_def
        calibrationFilter_def new_ShotDetector_def shot_A_def del: nth_map length_map)
qed

lemma detectAll_A: "detectAll new_ShotDetector signal_A = Inr [shot_A]"
proof -
  have len: "length signal_A = 166" by (simp add: signal_A_def)
  show ?thesis
    unfolding detectAll_def Let_def
    by (simp add: thresholds len body_A del: nth_map)
qed

text \<open>Signal P, batch: the plateau is taken as a peak at its first sample.\<close>

lemma aMags_P: "map aMag signal_P = replicate 100 10 @ [20, 20, 2, 15] @ replicate 62 10"
  by (simp add: signal_P_def)

lemma base_P: "baseline (map aMag signal_P) 80 = Some \<lparr>mean = 10, std = 0\<rparr>"
  unfolding aMags_P by (rule baseline_flat) (simp add: slice_def)

lemma dip_P: "findDip (map aMag signal_P) 100 135 = 102"
  unfolding aMags_P findDip_def by (simp add: nth_append)

lemma rec_P: "findRec (map aMag signal_P) 102 132 = 103"
  unfolding aMags_P findRec_def by (simp add: nth_append)

lemma body_P:
  "detectAll_body new_ShotDetector signal_P (map aMag signal_P) 100 ([], NegInf, 0)
     = Inr ([shot_P], Num 100, 0)"
proof -
  have nth: "map aMag signal_P ! 100 = 20" "map aMag signal_P ! 99 = 10"
    "map aMag signal_P ! 101 = 20" "map aMag signal_P ! 102 = 2"
    "map aMag signal_P ! 103 = 15"
    "length (map aMag signal_P) = 166" "signal_P ! 100 = smp 20"
    unfolding aMags_P by (simp_all add: nth_append signal_P_def)
  show ?thesis
    unfolding detectAll_body_def Let_def
    by (simp add: thresholds nth base_P dip_P rec_P xsub_def consensusFilter_def
        calibrationFilter_def new_ShotDetector_def shot_P_def del: nth_map length_map)
qed

lemma detectAll_P: "detectAll new_ShotDetector signal_P = Inr [shot_P]"
proof -
  have len: "length signal_P = 166" by (simp add: signal_P_def)
  show ?thesis
    unfolding detectAll_def Let_def
    by (simp add: thresholds len body_P del: nth_map)
qed

text \<open>Buffer A, live: the call reports the shot at buffer index 100.\<close>

lemma aMags_bufA:
  "map aMag (data buffer_A) = replicate 100 10 @ [20, 2, 15] @ replicate 87 10"
  "map aMag (data buffer_A2) = replicate 100 10 @ [20, 2, 15] @ replicate 87 10"
  by (simp_all add: buffer_A_def buffer_A2_def)

lemma check_A:
  assumes "aMags = replicate 100 10 @ [20, 2, 15] @ replicate 87 (10::real)"
    and "\<not> xlt (xsub (Num (real (absIndex buffer 100))) (lastShotIdx det)) (Num 60)"
    and "\<not> (now - lastShotTime det < 1200 \<and> lastShotTime det > 0)"
    and "useConsensus det = False" and "calibration det = None"
  shows "checkCandidate det aMags 100 190 now buffer
     = Inr (Some (live_shot (absIndex buffer 100) now),
            det\<lparr>lastShotTime := now, lastShotIdx := Num (real (absIndex buffer 100))\<rparr>)"
proof -
  have nth: "aMags ! 100 = 20" "aMags ! 99 = 10" "aMags ! 101 = 2" "aMags ! 102 = 15"
    unfolding assms(1) by (simp_all add: nth_append)
  have base: "baseline aMags 80 = Some \<lparr>mean = 10, std = 0\<rparr>"
    unfolding assms(1) by (rule baseline_flat) (simp add: slice_def)
  have dip: "findDip aMags 100 135 = 101"
    unfolding assms(1) findDip_def by (simp add: nth_append)
  have rec: "findRec aMags 101 131 = 102"
    unfolding assms(1) findRec_def by (simp add: nth_append)
  show ?thesis
    unfolding checkCandidate_def Let_def
    using assms(2-5)
    by (simp add: thresholds nth base dip rec consensusFilter_def
        calibrationFilter_def live_shot_def)
qed

lemma process_A:
  "ShotDetector_processSample new_ShotDetector buffer_A 5000
     = Inr (Some (live_shot 100 5000),
            new_ShotDetector\<lparr>lastShotTime := 5000, lastShotIdx := Num 100\<rparr>)"
proof -
  have c: "checkCandidate new_ShotDetector (map aMag (data buffer_A)) 100 190 5000 buffer_A
     = Inr (Some (live_shot (absIndex buffer_A 100) 5000),
            new_ShotDetector\<lparr>lastShotTime := 5000,
              lastShotIdx := Num (real (absIndex buffer_A 100))\<rparr>)"
    by (rule check_A) (simp_all add: aMags_bufA new_ShotDetector_def xsub_def)
  have a: "absIndex buffer_A 100 = 100" by (simp add: absIndex_def buffer_A_def)
  have len: "length (data buffer_A) = 190" by (simp add: buffer_A_def)
  have js: "[100 ..< 140] = 100 # [101 ..< 140]" by (simp add: upt_conv_Cons)
  show ?thesis
    unfolding ShotDetector_processSample_def Let_def buf_length_def len
    using c unfolding a
    by (simp add: thresholds js del: upt_Suc)
qed

lemma process_A2:
  "ShotDetector_processSample
     (new_ShotDetector\<lparr>lastShotTime := 5000, lastShotIdx := Num 100\<rparr>) buffer_A2 9000
     = Inr (Some (live_shot 200 9000),
            new_ShotDetector\<lparr>lastShotTime := 9000, lastShotIdx := Num 200\<rparr>)"
proof -
  let ?d = "new_ShotDetector\<lparr>lastShotTime := 5000, lastShotIdx := Num 100\<rparr>"
  have a: "absIndex buffer_A2 100 = 200" by (simp add: absIndex_def buffer_A2_def)
  have c: "checkCandidate ?d (map aMag (data buffer_A2)) 100 190 9000 buffer_A2
     = Inr (Some (live_shot (absIndex buffer_A2 100) 9000),
            ?d\<lparr>lastShotTime := 9000, lastShotIdx := Num (real (absIndex buffer_A2 100))\<rparr>)"
    by (rule check_A) (simp_all add: aMags_bufA new_ShotDetector_def xsub_def a)
  have len: "length (data buffer_A2) = 190" by (simp add: buffer_A2_def)
  have js: "[100 ..< 140] = 100 # [101 ..< 140]" by (simp add: upt_conv_Cons)
  show ?thesis
    unfolding ShotDetector_processSample_def Let_def buf_length_def len
    using c unfolding a
    by (simp add: thresholds js new_ShotDetector_def del: upt_Suc)
qed

text \<open>The flat buffer, live: no index of the scan window is a local maximum.\<close>

lemma scan_flat:
  assumes "\<forall>i \<in> set js. aMags ! i \<le> aMags ! (i - 1)"
  shows "scan det aMags len now buffer js = Inr (None, det)"
  using assms by (induction js) (simp_all add: checkCandidate_def)

lemma process_flat:
  "ShotDetector_processSample det buffer_flat now = Inr (None, det)"
proof -
  have len: "length (data buffer_flat) = 190" by (simp add: buffer_flat_def)
  have "scan det (map aMag (data buffer_flat)) 190 now buffer_flat [100 ..< 140]
          = Inr (None, det)"
    by (rule scan_flat) (simp add: buffer_flat_def)
  then show ?thesis
    unfolding ShotDetector_processSample_def Let_def buf_length_def len
    by (simp add: thresholds)
qed

text \<open>Signal B, batch: two shots, and a suppressed candidate between them.\<close>

lemma aMags_B:
  "map aMag signal_B =
     replicate 100 10 @ [20, 2, 15] @ replicate 100 10 @ [20, 2, 15] @ replicate 63 10"
  by (simp add: signal_B_def)

lemma loop_flat:
  assumes "\<forall>i \<in> set js. aMags ! i \<le> aMags ! (i - 1)"
  shows "detectAll_loop det imuData aMags js st = Inr st"
  using assms by (induction js) (simp_all add: detectAll_body_def Let_def)

lemma loop_append:
  "detectAll_loop det imuData aMags (js @ ks) st =
     (case detectAll_loop det imuData aMags js st of
        Inl e \<Rightarrow> Inl e
      | Inr st' \<Rightarrow> detectAll_loop det imuData aMags ks st')"
  by (induction js arbitrary: st) (simp_all split: sum.splits)

lemma body_B_100:
  "detectAll_body new_ShotDetector signal_B (map aMag signal_B) 100 ([], NegInf, 0)
     = Inr ([shot_A], Num 100, 0)"
proof -
  have nth: "map aMag signal_B ! 100 = 20" "map aMag signal_B ! 99 = 10"
    "map aMag signal_B ! 101 = 2" "map aMag signal_B ! 102 = 15"
    "length (map aMag signal_B) = 269" "signal_B ! 100 = smp 20"
    unfolding aMags_B by (simp_all add: nth_append signal_B_def)
  have base: "baseline (map aMag signal_B) 80 = Some \<lparr>mean = 10, std = 0\<rparr>"
    unfolding aMags_B by (rule baseline_flat) (simp add: slice_def)
  have dip: "findDip (map aMag signal_B) 100 135 = 101"
    unfolding aMags_B findDip_def by (simp add: nth_append)
  have rec: "findRec (map aMag signal_B) 101 131 = 102"
    unfolding aMags_B findRec_def by (simp add: nth_append)
  show ?thesis
    unfolding detectAll_body_def Let_def
    by (simp add: thresholds nth base dip rec xsub_def consensusFilter_def
        calibrationFilter_def new_ShotDetector_def shot_A_def del: nth_map length_map)
qed

lemma body_B_101:
  "detectAll_body new_ShotDetector signal_B (map aMag signal_B) 101 st = Inr st"
proof -
  have nth: "map aMag signal_B ! 100 = 20" "map aMag signal_B ! 101 = 2"
    unfolding aMags_B by (simp_all add: nth_append)
  show ?thesis
    unfolding detectAll_body_def Let_def by (simp add: nth del: nth_map)
qed

text \<open>
  The recovery at 102 is a local maximum that meets both peak thresholds; it is
  rejected because it is 2 samples after the shot at 100.
\<close>

lemma body_B_102:
  "detectAll_body new_ShotDetector signal_B (map aMag signal_B) 102 ([shot_A], Num 100, 0)
     = Inr ([shot_A], Num 100, 0)"
proof -
  have nth: "map aMag signal_B ! 102 = 15" "map aMag signal_B ! 101 = 2"
    "map aMag signal_B ! 103 = 10"
    unfolding aMags_B by (simp_all add: nth_append)
  have base: "baseline (map aMag signal_B) 82 = Some \<lparr>mean = 10, std = 0\<rparr>"
    unfolding aMags_B by (rule baseline_flat) (simp add: slice_def)
  show ?thesis
    unfolding detectAll_body_def Let_def
    by (simp add: thresholds nth base xsub_def del: nth_map length_map)
qed

lemma body_B_203:
  "detectAll_body new_ShotDetector signal_B (map aMag signal_B) 203 ([shot_A], Num 100, 0)
     = Inr ([shot_A, shot_B], Num 203, 0)"
proof -
  have nth: "map aMag signal_B ! 203 = 20" "map aMag signal_B ! 202 = 10"
    "map aMag signal_B ! 204 = 2" "map aMag signal_B ! 205 = 15"
    "length (map aMag signal_B) = 269" "signal_B ! 203 = smp 20"
    unfolding aMags_B by (simp_all add: nth_append signal_B_def)
  have base: "baseline (map aMag signal_B) 183 = Some \<lparr>mean = 10, std = 0\<rparr>"
    unfolding aMags_B by (rule baseline_flat) (simp add: slice_def)
  have dip: "findDip (map aMag signal_B) 203 238 = 204"
    unfolding aMags_B findDip_def by (simp add: nth_append)
  have rec: "findRec (map aMag signal_B) 204 234 = 205"
    unfolding aMags_B findRec_def by (simp add: nth_append)
  show ?thesis
    unfolding detectAll_body_def Let_def
    by (simp add: thresholds nth base dip rec xsub_def consensusFilter_def
        calibrationFilter_def new_ShotDetector_def shot_A_def shot_B_def
        del: nth_map length_map)
qed

lemma detectAll_B: "detectAll new_ShotDetector signal_B = Inr [shot_A, shot_B]"
proof -
  have b: "BASELINE_WINDOW + BASELINE_OFFSET = 100"
    "length (map aMag signal_B) - DIP_SEARCH_WINDOW - RECOVERY_SEARCH_WINDOW = 204"
    by (simp_all add: thresholds signal_B_def)
  have js: "[100 ..< 204] = [100, 101, 102] @ [103 ..< 203] @ [203]"
    by (simp add: upt_conv_Cons upt_rec [of 203 204] upt_add_eq_append [of 100 103 101, simplified]
           del: upt_Suc)
  have flat: "detectAll_loop new_ShotDetector signal_B (map aMag signal_B) [103 ..< 203] st
                = Inr st" for st
    by (rule loop_flat) (auto simp: aMags_B nth_append)
  have loop: "detectAll_loop new_ShotDetector signal_B (map aMag signal_B) [100 ..< 204]
                ([], NegInf, 0) = Inr ([shot_A, shot_B], Num 203, 0)"
    unfolding js loop_append
    by (simp add: flat body_B_100 body_B_101 body_B_102 body_B_203
        del: nth_map upt_Suc upt_rec_numeral)
  show ?thesis
    unfolding detectAll_def Let_def b loop by simp
qed

subsection \<open>The gates of a recorded shot\<close>

text \<open>The scanned indices leave room for both searches.\<close>

lemma batch_index:
  assumes "i \<in> set [BASELINE_WINDOW + BASELINE_OFFSET ..<
                     length aMags - DIP_SEARCH_WINDOW - RECOVERY_SEARCH_WINDOW]"
  shows "100 \<le> i" "i + 65 < length aMags" "min (length aMags) (i + DIP_SEARCH_WINDOW) = i + 35"
  using assms by (auto simp: thresholds)

text \<open>
  Every shot that \<^verbatim>\<open>detectAll\<close> returns sits at a scanned index and passed all
  gates there.
\<close>

lemma detectAll_shots:
  assumes "detectAll det imuData = Inr shots" and "s \<in> set shots"
  shows "\<exists>base dipIdx recIdx.
           100 \<le> idx s \<and> idx s + 65 < length imuData
           \<and> baseline (map aMag imuData) (idx s - BASELINE_OFFSET) = Some base
           \<and> passes (map aMag imuData) (length imuData) (idx s) base dipIdx recIdx
           \<and> mag s = map aMag imuData ! idx s
           \<and> dipMag s = map aMag imuData ! dipIdx
           \<and> recoveryMag s = map aMag imuData ! recIdx
           \<and> shot_range s = map aMag imuData ! idx s - map aMag imuData ! dipIdx"
proof -
  let ?aMags = "map aMag imuData"
  let ?js = "[BASELINE_WINDOW + BASELINE_OFFSET ..<
              length ?aMags - DIP_SEARCH_WINDOW - RECOVERY_SEARCH_WINDOW]"
  let ?P = "\<lambda>s. \<exists>base dipIdx recIdx.
           100 \<le> idx s \<and> idx s + 65 < length imuData
           \<and> baseline ?aMags (idx s - BASELINE_OFFSET) = Some base
           \<and> passes ?aMags (length imuData) (idx s) base dipIdx recIdx
           \<and> mag s = ?aMags ! idx s
           \<and> dipMag s = ?aMags ! dipIdx
           \<and> recoveryMag s = ?aMags ! recIdx
           \<and> shot_range s = ?aMags ! idx s - ?aMags ! dipIdx"
  from assms(1) obtain st where
    l: "detectAll_loop det imuData ?aMags ?js ([], NegInf, 0) = Inr st" and
    st: "shots = fst st"
    by (auto simp: detectAll_def Let_def split: sum.splits)
  have "\<forall>s \<in> set (fst st). ?P s"
  proof (rule detectAll_loop_shots [OF l])
    show "\<forall>s \<in> set (fst ([], NegInf, 0::real)). ?P s" by simp
  next
    fix i base dipIdx recIdx cons calib
    assume i: "i \<in> set ?js"
      and b: "baseline ?aMags (i - BASELINE_OFFSET) = Some base"
      and p: "passes ?aMags (length ?aMags) i base dipIdx recIdx"
    from batch_index [OF i] have "100 \<le> i" "i + 65 < length imuData" by simp_all
    with b p show "?P \<lparr>idx = i, bufferIdx = None, mag = ?aMags ! i,
              dipMag = ?aMags ! dipIdx, recoveryMag = ?aMags ! recIdx,
              shot_range = ?aMags ! i - ?aMags ! dipIdx,
              shot_t = t (imuData ! i), shot_tRel = tRel (imuData ! i),
              consensus = cons, calibResult = calib\<rparr>"
      by (intro exI [of _ base] exI [of _ dipIdx] exI [of _ recIdx]) (simp del: nth_map)
  qed
  with assms(2) st show ?thesis by blast
qed

text \<open>The dip gate and the range gate, read off \<open>passes\<close>.\<close>

lemma passes_dip:
  assumes "passes aMags len i base dipIdx recIdx" and "i + 35 \<le> len"
  shows "dipIdx = findDip aMags i (i + 35)" "i < dipIdx" "dipIdx < i + 35"
    "\<And>j. i < j \<Longrightarrow> j < i + 35 \<Longrightarrow> aMags ! dipIdx \<le> aMags ! j"
    "aMags ! dipIdx \<le> mean base - 1.5 * std base"
    "aMags ! dipIdx \<le> 6"
    "aMags ! i - aMags ! dipIdx \<ge> max 8 (min (std base) 1.5 * 5.0)"
proof -
  from assms(2) have m: "min len (i + DIP_SEARCH_WINDOW) = i + 35"
    by (simp add: thresholds)
  from assms(1) show d: "dipIdx = findDip aMags i (i + 35)"
    unfolding passes_def m by simp
  have "i + 1 < i + 35" by simp
  from findDip_props [OF this, where aMags = aMags]
  show "i < dipIdx" "dipIdx < i + 35"
    "\<And>j. i < j \<Longrightarrow> j < i + 35 \<Longrightarrow> aMags ! dipIdx \<le> aMags ! j"
    unfolding d by simp_all
  from assms(1) have "aMags ! dipIdx \<le> mean base - DIP_SIGMA * std base"
    "aMags ! dipIdx \<le> MAX_DIP_ABS"
    "aMags ! i - aMags ! dipIdx
       \<ge> max MIN_PEAK_TO_DIP_ABS (min (std base) MAX_EFFECTIVE_STD * PEAK_TO_DIP_SIGMA)"
    unfolding passes_def by blast+
  then show "aMags ! dipIdx \<le> mean base - 1.5 * std base"
    "aMags ! dipIdx \<le> 6"
    "aMags ! i - aMags ! dipIdx \<ge> max 8 (min (std base) 1.5 * 5.0)"
    by (simp_all add: thresholds)
qed

text \<open>
  Claim C1. In batch mode, every shot in the list that \<^verbatim>\<open>detectAll\<close> returns, and
  in live mode the shot that a call of \<^verbatim>\<open>processSample\<close> returns, has a baseline
  \<open>base\<close> (the 80 samples that end 20 before the peak) and a dip index \<open>dipIdx\<close> such
  that: \<open>dipIdx\<close> is what the dip search finds among the indices \<open>i + 1, \<dots>, i + 34\<close>
  after the peak \<open>i\<close> (the 35-sample window that starts at the peak), the signal
  there is the least of the signal on these indices, and is the shot's \<open>dipMag\<close>;
  \<open>dipMag \<le> mean - 1.5 \<sqdot> std\<close> with the baseline's own standard deviation;
  \<open>dipMag \<le> 6\<close>; and the shot's range, \<open>mag - dipMag\<close>, is at least
  \<open>max 8 (effStd \<sqdot> 5.0)\<close> with \<open>effStd = min std 1.5\<close>. So a candidate that
  violates one of the three conditions is in no returned list and is not returned by
  \<^verbatim>\<open>processSample\<close>.
\<close>

theorem C1_dip_and_range_gate:
  "(detectAll det imuData = Inr shots \<longrightarrow>
      (\<forall>s \<in> set shots. \<exists>base dipIdx.
         baseline (map aMag imuData) (idx s - 20) = Some base
         \<and> dipIdx = findDip (map aMag imuData) (idx s) (idx s + 35)
         \<and> idx s < dipIdx \<and> dipIdx < idx s + 35
         \<and> (\<forall>j. idx s < j \<and> j < idx s + 35 \<longrightarrow>
               map aMag imuData ! dipIdx \<le> map aMag imuData ! j)
         \<and> dipMag s = map aMag imuData ! dipIdx
         \<and> mag s = map aMag imuData ! idx s
         \<and> dipMag s \<le> mean base - 1.5 * std base
         \<and> dipMag s \<le> 6
         \<and> shot_range s = mag s - dipMag s
         \<and> shot_range s \<ge> max 8 (min (std base) 1.5 * 5.0)))
   \<and> (ShotDetector_processSample det buffer now = Inr (Some s', det') \<longrightarrow>
      (\<exists>i base dipIdx.
         bufferIdx s' = Some i
         \<and> baseline (map aMag (data buffer)) (i - 20) = Some base
         \<and> dipIdx = findDip (map aMag (data buffer)) i (i + 35)
         \<and> i < dipIdx \<and> dipIdx < i + 35
         \<and> (\<forall>j. i < j \<and> j < i + 35 \<longrightarrow>
               map aMag (data buffer) ! dipIdx \<le> map aMag (data buffer) ! j)
         \<and> dipMag s' = map aMag (data buffer) ! dipIdx
         \<and> mag s' = map aMag (data buffer) ! i
         \<and> dipMag s' \<le> mean base - 1.5 * std base
         \<and> dipMag s' \<le> 6
         \<and> shot_range s' = mag s' - dipMag s'
         \<and> shot_range s' \<ge> max 8 (min (std base) 1.5 * 5.0)))"
proof (intro conjI impI ballI)
  fix s
  assume "detectAll det imuData = Inr shots" "s \<in> set shots"
  from detectAll_shots [OF this] obtain base dipIdx recIdx where
    i: "idx s + 65 < length imuData" and
    b: "baseline (map aMag imuData) (idx s - BASELINE_OFFSET) = Some base" and
    p: "passes (map aMag imuData) (length imuData) (idx s) base dipIdx recIdx" and
    f: "mag s = map aMag imuData ! idx s" "dipMag s = map aMag imuData ! dipIdx"
       "shot_range s = map aMag imuData ! idx s - map aMag imuData ! dipIdx"
    by blast
  from i have "idx s + 35 \<le> length imuData" by simp
  note d = passes_dip [OF p this]
  from b have b': "baseline (map aMag imuData) (idx s - 20) = Some base"
    by (simp add: thresholds)
  show "\<exists>base dipIdx.
         baseline (map aMag imuData) (idx s - 20) = Some base
         \<and> dipIdx = findDip (map aMag imuData) (idx s) (idx s + 35)
         \<and> idx s < dipIdx \<and> dipIdx < idx s + 35
         \<and> (\<forall>j. idx s < j \<and> j < idx s + 35 \<longrightarrow>
               map aMag imuData ! dipIdx \<le> map aMag imuData ! j)
         \<and> dipMag s = map aMag imuData ! dipIdx
         \<and> mag s = map aMag imuData ! idx s
         \<and> dipMag s \<le> mean base - 1.5 * std base
         \<and> dipMag s \<le> 6
         \<and> shot_range s = mag s - dipMag s
         \<and> shot_range s \<ge> max 8 (min (std base) 1.5 * 5.0)"
    using b' d f by (intro exI [of _ base] exI [of _ dipIdx]) (simp del: nth_map)
next
  assume "ShotDetector_processSample det buffer now = Inr (Some s', det')"
  from processSample_Some [OF this] obtain i base dipIdx recIdx cons where
    len: "190 \<le> length (data buffer)" and
    i: "i < length (data buffer) - 50" and
    b: "baseline (map aMag (data buffer)) (i - BASELINE_OFFSET) = Some base" and
    p: "passes (map aMag (data buffer)) (length (data buffer)) i base dipIdx recIdx" and
    s': "s' = \<lparr>idx = absIndex buffer i, bufferIdx = Some i,
               mag = map aMag (data buffer) ! i,
               dipMag = map aMag (data buffer) ! dipIdx,
               recoveryMag = map aMag (data buffer) ! recIdx,
               shot_range = map aMag (data buffer) ! i - map aMag (data buffer) ! dipIdx,
               shot_t = Some now, shot_tRel = None,
               consensus = cons,
               calibResult =
                 calibrationFilter det (data buffer) i dipIdx recIdx (mean base)\<rparr>"
    by blast
  from len i have "i + 35 \<le> length (data buffer)" by simp
  note d = passes_dip [OF p this]
  from b have b': "baseline (map aMag (data buffer)) (i - 20) = Some base"
    by (simp add: thresholds)
  show "\<exists>i base dipIdx.
         bufferIdx s' = Some i
         \<and> baseline (map aMag (data buffer)) (i - 20) = Some base
         \<and> dipIdx = findDip (map aMag (data buffer)) i (i + 35)
         \<and> i < dipIdx \<and> dipIdx < i + 35
         \<and> (\<forall>j. i < j \<and> j < i + 35 \<longrightarrow>
               map aMag (data buffer) ! dipIdx \<le> map aMag (data buffer) ! j)
         \<and> dipMag s' = map aMag (data buffer) ! dipIdx
         \<and> mag s' = map aMag (data buffer) ! i
         \<and> dipMag s' \<le> mean base - 1.5 * std base
         \<and> dipMag s' \<le> 6
         \<and> shot_range s' = mag s' - dipMag s'
         \<and> shot_range s' \<ge> max 8 (min (std base) 1.5 * 5.0)"
    using b' d unfolding s'
    by (intro exI [of _ i] exI [of _ base] exI [of _ dipIdx]) (simp del: nth_map)
qed

theorem C1_dip_and_range_gate_witness:
  "detectAll new_ShotDetector signal_A = Inr [shot_A]
   \<and> ShotDetector_processSample new_ShotDetector buffer_A 5000
       = Inr (Some (live_shot 100 5000),
              new_ShotDetector\<lparr>lastShotTime := 5000, lastShotIdx := Num 100\<rparr>)
   \<and> (\<exists>base dipIdx.
         baseline (map aMag signal_A) (idx shot_A - 20) = Some base
         \<and> dipIdx = findDip (map aMag signal_A) (idx shot_A) (idx shot_A + 35)
         \<and> dipMag shot_A = map aMag signal_A ! dipIdx
         \<and> dipMag shot_A \<le> mean base - 1.5 * std base
         \<and> dipMag shot_A \<le> 6
         \<and> shot_range shot_A \<ge> max 8 (min (std base) 1.5 * 5.0))
   \<and> (\<exists>i base dipIdx.
         bufferIdx (live_shot 100 5000) = Some i
         \<and> baseline (map aMag (data buffer_A)) (i - 20) = Some base
         \<and> dipIdx = findDip (map aMag (data buffer_A)) i (i + 35)
         \<and> dipMag (live_shot 100 5000) = map aMag (data buffer_A) ! dipIdx
         \<and> dipMag (live_shot 100 5000) \<le> mean base - 1.5 * std base
         \<and> dipMag (live_shot 100 5000) \<le> 6
         \<and> shot_range (live_shot 100 5000) \<ge> max 8 (min (std base) 1.5 * 5.0))"
proof -
  note C = C1_dip_and_range_gate [where det = new_ShotDetector and imuData = signal_A
      and shots = "[shot_A]" and buffer = buffer_A and now = 5000
      and s' = "live_shot 100 5000"
      and det' = "new_ShotDetector\<lparr>lastShotTime := 5000, lastShotIdx := Num 100\<rparr>"]
  from C [THEN conjunct1, THEN mp, OF detectAll_A]
  have 1: "\<exists>base dipIdx.
         baseline (map aMag signal_A) (idx shot_A - 20) = Some base
         \<and> dipIdx = findDip (map aMag signal_A) (idx shot_A) (idx shot_A + 35)
         \<and> dipMag shot_A = map aMag signal_A ! dipIdx
         \<and> dipMag shot_A \<le> mean base - 1.5 * std base
         \<and> dipMag shot_A \<le> 6
         \<and> shot_range shot_A \<ge> max 8 (min (std base) 1.5 * 5.0)"
    by (simp only: list.set ball_simps) blast
  from C [THEN conjunct2, THEN mp, OF process_A]
  have 2: "\<exists>i base dipIdx.
         bufferIdx (live_shot 100 5000) = Some i
         \<and> baseline (map aMag (data buffer_A)) (i - 20) = Some base
         \<and> dipIdx = findDip (map aMag (data buffer_A)) i (i + 35)
         \<and> dipMag (live_shot 100 5000) = map aMag (data buffer_A) ! dipIdx
         \<and> dipMag (live_shot 100 5000) \<le> mean base - 1.5 * std base
         \<and> dipMag (live_shot 100 5000) \<le> 6
         \<and> shot_range (live_shot 100 5000) \<ge> max 8 (min (std base) 1.5 * 5.0)"
    by blast
  from detectAll_A process_A 1 2 show ?thesis by (intro conjI)
qed

subsection \<open>The local-maximum test\<close>

lemma passes_local_max:
  assumes "passes aMags len i base dipIdx recIdx"
  shows "aMags ! i > aMags ! (i - 1)" "aMags ! i \<ge> aMags ! (i + 1)"
  using assms unfolding passes_def by blast+

text \<open>
  Claim C3, as the source has it. The test that both modes apply is
  \<^verbatim>\<open>aMags[i] <= aMags[i - 1] || aMags[i] < aMags[i + 1]\<close> (reject); so the peak of
  every returned shot is strictly greater than the sample before it and greater than
  or equal to the sample after it. The strict side is the previous sample, not the
  next one. In batch mode the peak is the shot's \<open>idx\<close>, one of the scanned indices
  \<open>100, \<dots>, length - 66\<close>; in live mode it is the shot's \<open>bufferIdx\<close>, one of the
  scanned indices \<open>length - 90, \<dots>, length - 51\<close>.
\<close>

theorem C3_local_maximum:
  "(detectAll det imuData = Inr shots \<longrightarrow>
      (\<forall>s \<in> set shots.
         100 \<le> idx s \<and> idx s + 65 < length imuData
         \<and> mag s = map aMag imuData ! idx s
         \<and> map aMag imuData ! idx s > map aMag imuData ! (idx s - 1)
         \<and> map aMag imuData ! idx s \<ge> map aMag imuData ! (idx s + 1)))
   \<and> (ShotDetector_processSample det buffer now = Inr (Some s', det') \<longrightarrow>
      (\<exists>i. bufferIdx s' = Some i \<and> idx s' = absIndex buffer i
         \<and> length (data buffer) - 90 \<le> i \<and> i < length (data buffer) - 50
         \<and> mag s' = map aMag (data buffer) ! i
         \<and> map aMag (data buffer) ! i > map aMag (data buffer) ! (i - 1)
         \<and> map aMag (data buffer) ! i \<ge> map aMag (data buffer) ! (i + 1)))"
proof (intro conjI impI)
  assume run: "detectAll det imuData = Inr shots"
  show "\<forall>s \<in> set shots.
         100 \<le> idx s \<and> idx s + 65 < length imuData
         \<and> mag s = map aMag imuData ! idx s
         \<and> map aMag imuData ! idx s > map aMag imuData ! (idx s - 1)
         \<and> map aMag imuData ! idx s \<ge> map aMag imuData ! (idx s + 1)"
  proof
    fix s
    assume "s \<in> set shots"
    from detectAll_shots [OF run this] obtain base dipIdx recIdx where
      "100 \<le> idx s" "idx s + 65 < length imuData"
      "passes (map aMag imuData) (length imuData) (idx s) base dipIdx recIdx"
      "mag s = map aMag imuData ! idx s"
      by blast
    with passes_local_max [of "map aMag imuData" "length imuData" "idx s" base dipIdx recIdx]
    show "100 \<le> idx s \<and> idx s + 65 < length imuData
           \<and> mag s = map aMag imuData ! idx s
           \<and> map aMag imuData ! idx s > map aMag imuData ! (idx s - 1)
           \<and> map aMag imuData ! idx s \<ge> map aMag imuData ! (idx s + 1)"
      by blast
  qed
next
  assume "ShotDetector_processSample det buffer now = Inr (Some s', det')"
  from processSample_Some [OF this] obtain i base dipIdx recIdx cons where
    i: "length (data buffer) - 90 \<le> i" "i < length (data buffer) - 50" and
    p: "passes (map aMag (data buffer)) (length (data buffer)) i base dipIdx recIdx" and
    s': "s' = \<lparr>idx = absIndex buffer i, bufferIdx = Some i,
               mag = map aMag (data buffer) ! i,
               dipMag = map aMag (data buffer) ! dipIdx,
               recoveryMag = map aMag (data buffer) ! recIdx,
               shot_range = map aMag (data buffer) ! i - map aMag (data buffer) ! dipIdx,
               shot_t = Some now, shot_tRel = None,
               consensus = cons,
               calibResult =
                 calibrationFilter det (data buffer) i dipIdx recIdx (mean base)\<rparr>"
    by blast
  from passes_local_max [OF p] i
  show "\<exists>i. bufferIdx s' = Some i \<and> idx s' = absIndex buffer i
         \<and> length (data buffer) - 90 \<le> i \<and> i < length (data buffer) - 50
         \<and> mag s' = map aMag (data buffer) ! i
         \<and> map aMag (data buffer) ! i > map aMag (data buffer) ! (i - 1)
         \<and> map aMag (data buffer) ! i \<ge> map aMag (data buffer) ! (i + 1)"
    unfolding s' by (intro exI [of _ i]) (simp del: nth_map)
qed

theorem C3_local_maximum_witness:
  "detectAll new_ShotDetector signal_P = Inr [shot_P]
   \<and> ShotDetector_processSample new_ShotDetector buffer_A 5000
       = Inr (Some (live_shot 100 5000),
              new_ShotDetector\<lparr>lastShotTime := 5000, lastShotIdx := Num 100\<rparr>)
   \<and> map aMag signal_P ! idx shot_P > map aMag signal_P ! (idx shot_P - 1)
   \<and> map aMag signal_P ! idx shot_P \<ge> map aMag signal_P ! (idx shot_P + 1)
   \<and> (\<exists>i. bufferIdx (live_shot 100 5000) = Some i
         \<and> map aMag (data buffer_A) ! i > map aMag (data buffer_A) ! (i - 1)
         \<and> map aMag (data buffer_A) ! i \<ge> map aMag (data buffer_A) ! (i + 1))"
proof -
  note C = C3_local_maximum [where det = new_ShotDetector and imuData = signal_P
      and shots = "[shot_P]" and buffer = buffer_A and now = 5000
      and s' = "live_shot 100 5000"
      and det' = "new_ShotDetector\<lparr>lastShotTime := 5000, lastShotIdx := Num 100\<rparr>"]
  from C [THEN conjunct1, THEN mp, OF detectAll_P]
  have 1: "map aMag signal_P ! idx shot_P > map aMag signal_P ! (idx shot_P - 1)"
    "map aMag signal_P ! idx shot_P \<ge> map aMag signal_P ! (idx shot_P + 1)"
    by (simp_all only: list.set ball_simps)
  from C [THEN conjunct2, THEN mp, OF process_A]
  have 2: "\<exists>i. bufferIdx (live_shot 100 5000) = Some i
         \<and> map aMag (data buffer_A) ! i > map aMag (data buffer_A) ! (i - 1)
         \<and> map aMag (data buffer_A) ! i \<ge> map aMag (data buffer_A) ! (i + 1)"
    by blast
  from detectAll_P process_A 1 2 show ?thesis by (intro conjI)
qed

text \<open>
  Counterexample to claim C3 as stated: on \<open>signal_P\<close> the detector records a shot
  at index 100 although the sample at 100 is not strictly greater than the next one
  (both are 20).
\<close>

theorem C3_counterexample:
  "detectAll new_ShotDetector signal_P = Inr [shot_P]
   \<and> idx shot_P = 100
   \<and> aMag (signal_P ! 100) = 20 \<and> aMag (signal_P ! 101) = 20
   \<and> \<not> aMag (signal_P ! 100) > aMag (signal_P ! 101)"
  using detectAll_P by (simp add: shot_P_def signal_P_def nth_append)

subsection \<open>Minimum separation\<close>

lemma sorted_wrt_nth:
  assumes "sorted_wrt P xs" and "a < b" and "b < length xs"
  shows "P (xs ! a) (xs ! b)"
  using assms by (simp add: sorted_wrt_iff_nth_less)

lemma detectAll_separation:
  assumes "detectAll det imuData = Inr shots"
  shows "sorted_wrt (\<lambda>a b. idx a + 60 \<le> idx b) shots"
proof -
  let ?aMags = "map aMag imuData"
  let ?js = "[BASELINE_WINDOW + BASELINE_OFFSET ..<
              length ?aMags - DIP_SEARCH_WINDOW - RECOVERY_SEARCH_WINDOW]"
  from assms obtain st where
    l: "detectAll_loop det imuData ?aMags ?js ([], NegInf, 0) = Inr st" and
    st: "shots = fst st"
    by (auto simp: detectAll_def Let_def split: sum.splits)
  from detectAll_loop_separation [OF l] st show ?thesis by simp
qed

text \<open>
  Claim C2. (1) In the list that one run of \<^verbatim>\<open>detectAll\<close> returns, a later shot's
  peak index is at least 60 above every earlier shot's. (2) A live call that returns
  a shot with absolute index \<open>idx\<close> was made with \<^verbatim>\<open>lastShotIdx\<close> either not a
  number (no shot yet) or at most \<open>idx - 60\<close>, and it sets \<^verbatim>\<open>lastShotIdx\<close> to
  \<open>idx\<close>. (3) Hence, if the detector that a reporting call leaves is used for
  another call that reports a shot (on any buffer, at any time), the second absolute
  index is at least 60 above the first. (4) In a live run, where every new sample is
  pushed to the buffer and the detector is then called once, the absolute indices of
  the reported shots are at least 60 apart, pairwise, across all the calls and
  compactions of the run.
\<close>

theorem C2_minimum_separation:
  "(detectAll det imuData = Inr shots \<longrightarrow>
      (\<forall>a b. a < b \<and> b < length shots \<longrightarrow> idx (shots ! a) + 60 \<le> idx (shots ! b)))
   \<and> (ShotDetector_processSample det buffer now = Inr (Some s, det') \<longrightarrow>
        (\<forall>l. lastShotIdx det = Num l \<longrightarrow> l + 60 \<le> real (idx s))
        \<and> lastShotIdx det \<noteq> PosInf
        \<and> lastShotIdx det' = Num (real (idx s))
        \<and> (\<exists>i. bufferIdx s = Some i \<and> idx s = absIndex buffer i))
   \<and> (ShotDetector_processSample det buffer now = Inr (Some s, det')
        \<and> ShotDetector_processSample det' buffer2 now2 = Inr (Some s2, det2) \<longrightarrow>
        idx s + 60 \<le> idx s2)
   \<and> (liveRun det buffer evs = Inr out \<longrightarrow>
        (\<forall>a b. a < b \<and> b < length (fst out) \<longrightarrow>
           idx (fst out ! a) + 60 \<le> idx (fst out ! b)))"
proof -
  have live: "(\<forall>l. lastShotIdx d = Num l \<longrightarrow> l + 60 \<le> real (idx x))
        \<and> lastShotIdx d \<noteq> PosInf
        \<and> lastShotIdx d' = Num (real (idx x))
        \<and> (\<exists>i. bufferIdx x = Some i \<and> idx x = absIndex b i)"
    if "ShotDetector_processSample d b tm = Inr (Some x, d')" for d b tm x d'
  proof -
    from processSample_Some [OF that] obtain i where
      g: "\<not> xlt (xsub (Num (real (absIndex b i))) (lastShotIdx d)) (Num MIN_SHOT_SAMPLES)"
      and x: "idx x = absIndex b i" "bufferIdx x = Some i"
      and d': "lastShotIdx d' = Num (real (absIndex b i))"
      by auto
    from g have "\<forall>l. lastShotIdx d = Num l \<longrightarrow> l + 60 \<le> real (idx x)"
      unfolding x by (auto simp: xsub_def MIN_SHOT_SAMPLES_def)
    moreover from g have "lastShotIdx d \<noteq> PosInf"
      by (auto simp: xsub_def)
    ultimately show ?thesis using x d' by simp
  qed
  have 1: "detectAll det imuData = Inr shots \<longrightarrow>
      (\<forall>a b. a < b \<and> b < length shots \<longrightarrow> idx (shots ! a) + 60 \<le> idx (shots ! b))"
    using detectAll_separation [of det imuData shots]
    by (auto dest: sorted_wrt_nth)
  have 2: "ShotDetector_processSample det buffer now = Inr (Some s, det') \<longrightarrow>
        (\<forall>l. lastShotIdx det = Num l \<longrightarrow> l + 60 \<le> real (idx s))
        \<and> lastShotIdx det \<noteq> PosInf
        \<and> lastShotIdx det' = Num (real (idx s))
        \<and> (\<exists>i. bufferIdx s = Some i \<and> idx s = absIndex buffer i)"
    using live by blast
  have 3: "ShotDetector_processSample det buffer now = Inr (Some s, det')
        \<and> ShotDetector_processSample det' buffer2 now2 = Inr (Some s2, det2) \<longrightarrow>
        idx s + 60 \<le> idx s2"
  proof (intro impI, elim conjE)
    assume a: "ShotDetector_processSample det buffer now = Inr (Some s, det')"
      and b: "ShotDetector_processSample det' buffer2 now2 = Inr (Some s2, det2)"
    from live [OF a] have "lastShotIdx det' = Num (real (idx s))" by blast
    with live [OF b] have "real (idx s) + 60 \<le> real (idx s2)" by blast
    then show "idx s + 60 \<le> idx s2" by linarith
  qed
  have 4: "liveRun det buffer evs = Inr out \<longrightarrow>
        (\<forall>a b. a < b \<and> b < length (fst out) \<longrightarrow>
           idx (fst out ! a) + 60 \<le> idx (fst out ! b))"
    using liveRun_separation [of det buffer evs out]
    by (auto dest: sorted_wrt_nth)
  from 1 2 3 4 show ?thesis by (intro conjI)
qed

lemma liveRun_A:
  "liveRun new_ShotDetector buffer_A_before [(smp 10, 5000)]
     = Inr ([live_shot 100 5000],
            new_ShotDetector\<lparr>lastShotTime := 5000, lastShotIdx := Num 100\<rparr>, buffer_A)"
proof -
  have "(87::nat) = Suc 86" by simp
  then have r: "replicate 86 x @ [x] = replicate 87 x" for x :: sample
    by (simp only: replicate_Suc replicate_append_same)
  have "push buffer_A_before (smp 10) = buffer_A"
    by (simp add: push_def buffer_A_before_def buffer_A_def Let_def r)
  then show ?thesis by (simp add: process_A)
qed

theorem C2_minimum_separation_witness:
  "detectAll new_ShotDetector signal_B = Inr [shot_A, shot_B]
   \<and> idx ([shot_A, shot_B] ! 0) + 60 \<le> idx ([shot_A, shot_B] ! 1)
   \<and> ShotDetector_processSample new_ShotDetector buffer_A 5000
       = Inr (Some (live_shot 100 5000),
              new_ShotDetector\<lparr>lastShotTime := 5000, lastShotIdx := Num 100\<rparr>)
   \<and> ShotDetector_processSample
        (new_ShotDetector\<lparr>lastShotTime := 5000, lastShotIdx := Num 100\<rparr>) buffer_A2 9000
       = Inr (Some (live_shot 200 9000),
              new_ShotDetector\<lparr>lastShotTime := 9000, lastShotIdx := Num 200\<rparr>)
   \<and> idx (live_shot 100 5000) + 60 \<le> idx (live_shot 200 9000)
   \<and> liveRun new_ShotDetector buffer_A_before [(smp 10, 5000)]
       = Inr ([live_shot 100 5000],
              new_ShotDetector\<lparr>lastShotTime := 5000, lastShotIdx := Num 100\<rparr>, buffer_A)"
proof -
  note C = C2_minimum_separation [where det = new_ShotDetector and imuData = signal_B
      and shots = "[shot_A, shot_B]" and buffer = buffer_A and now = 5000
      and s = "live_shot 100 5000"
      and det' = "new_ShotDetector\<lparr>lastShotTime := 5000, lastShotIdx := Num 100\<rparr>"
      and ?buffer2.0 = buffer_A2 and ?now2.0 = 9000 and ?s2.0 = "live_shot 200 9000"
      and ?det2.0 = "new_ShotDetector\<lparr>lastShotTime := 9000, lastShotIdx := Num 200\<rparr>"]
  from C [THEN conjunct1, THEN mp, OF detectAll_B]
  have 1: "idx ([shot_A, shot_B] ! 0) + 60 \<le> idx ([shot_A, shot_B] ! 1)"
    by (elim allE [of _ 0] allE [of _ "1::nat"]) simp
  from C [THEN conjunct2, THEN conjunct2, THEN conjunct1, THEN mp, OF conjI, OF process_A process_A2]
  have 2: "idx (live_shot 100 5000) + 60 \<le> idx (live_shot 200 9000)" .
  from detectAll_B 1 process_A process_A2 2 liveRun_A show ?thesis by (intro conjI)
qed

subsection \<open>Calls that return no shot\<close>

text \<open>
  Claim C10. A live call always returns (it does not throw). When it returns
  \<^verbatim>\<open>null\<close> the detector after the call is the detector before it, so
  \<^verbatim>\<open>lastShotTime\<close> and \<^verbatim>\<open>lastShotIdx\<close> are unchanged, whatever the cause: a
  buffer shorter than 190 samples (which always gives \<^verbatim>\<open>null\<close>), a gate that
  fails at every scanned index, or a post-filter that rejects. When it returns a shot,
  and only then, the two fields are set, to the current time and the shot's absolute
  index.
\<close>

theorem C10_null_leaves_state:
  "\<exists>r det'. ShotDetector_processSample det buffer now = Inr (r, det')
     \<and> (r = None \<longrightarrow> det' = det \<and> lastShotTime det' = lastShotTime det
                        \<and> lastShotIdx det' = lastShotIdx det)
     \<and> (\<forall>s. r = Some s \<longrightarrow>
           det' = det\<lparr>lastShotTime := now, lastShotIdx := Num (real (idx s))\<rparr>)
     \<and> (buf_length buffer < 190 \<longrightarrow> r = None)"
proof -
  from processSample_returns obtain r det' where
    p: "ShotDetector_processSample det buffer now = Inr (r, det')" by blast
  have 1: "r = None \<longrightarrow> det' = det \<and> lastShotTime det' = lastShotTime det
                        \<and> lastShotIdx det' = lastShotIdx det"
    using p processSample_None by auto
  have 2: "\<forall>s. r = Some s \<longrightarrow>
           det' = det\<lparr>lastShotTime := now, lastShotIdx := Num (real (idx s))\<rparr>"
  proof (intro allI impI)
    fix s assume "r = Some s"
    with p have "ShotDetector_processSample det buffer now = Inr (Some s, det')" by simp
    from processSample_Some [OF this]
    show "det' = det\<lparr>lastShotTime := now, lastShotIdx := Num (real (idx s))\<rparr>" by auto
  qed
  have 3: "buf_length buffer < 190 \<longrightarrow> r = None"
    using p by (auto simp: ShotDetector_processSample_def thresholds)
  from p 1 2 3 show ?thesis by blast
qed

theorem C10_null_leaves_state_witness:
  "ShotDetector_processSample detector_40 buffer_flat 5000 = Inr (None, detector_40)
   \<and> lastShotTime detector_40 = 1000 \<and> lastShotIdx detector_40 = Num 40
   \<and> ShotDetector_processSample detector_40 (new_IMUBuffer 3000 1000) 5000
       = Inr (None, detector_40)
   \<and> (\<exists>det'. ShotDetector_processSample detector_40 buffer_flat 5000 = Inr (None, det')
         \<and> lastShotTime det' = 1000 \<and> lastShotIdx det' = Num 40)
   \<and> ShotDetector_processSample new_ShotDetector buffer_A 5000
       = Inr (Some (live_shot 100 5000),
              new_ShotDetector\<lparr>lastShotTime := 5000,
                lastShotIdx := Num (real (idx (live_shot 100 5000)))\<rparr>)"
proof -
  have f: "ShotDetector_processSample detector_40 buffer_flat 5000 = Inr (None, detector_40)"
    by (rule process_flat)
  have d: "lastShotTime detector_40 = 1000" "lastShotIdx detector_40 = Num 40"
    by (simp_all add: detector_40_def)
  have e: "ShotDetector_processSample detector_40 (new_IMUBuffer 3000 1000) 5000
       = Inr (None, detector_40)"
    by (simp add: ShotDetector_processSample_def buf_length_def new_IMUBuffer_def thresholds)
  from C10_null_leaves_state [of detector_40 buffer_flat 5000] f d
  have w: "\<exists>det'. ShotDetector_processSample detector_40 buffer_flat 5000 = Inr (None, det')
         \<and> lastShotTime det' = 1000 \<and> lastShotIdx det' = Num 40"
    by auto
  from C10_null_leaves_state [of new_ShotDetector buffer_A 5000] process_A
  have s: "ShotDetector_processSample new_ShotDetector buffer_A 5000
       = Inr (Some (live_shot 100 5000),
              new_ShotDetector\<lparr>lastShotTime := 5000,
                lastShotIdx := Num (real (idx (live_shot 100 5000)))\<rparr>)"
    by auto
  from f d e w s show ?thesis by (intro conjI)
qed

subsection \<open>Which candidates the batch loop records\<close>

text \<open>
  Once the three phases and the two separation gates have passed, the loop body is
  the consensus filter, the calibration filter and the recording of the shot.
\<close>

lemma passes_split:
  "passes aMags len i base dipIdx recIdx \<longleftrightarrow>
     peak_gate aMags i base \<and> shape_gates aMags len i base dipIdx recIdx
     \<and> dipIdx = findDip aMags i (min len (i + DIP_SEARCH_WINDOW))
     \<and> recIdx = findRec aMags dipIdx (min len (dipIdx + RECOVERY_SEARCH_WINDOW))"
  unfolding passes_def peak_gate_def shape_gates_def by blast

lemma detectAll_body_passed:
  assumes base: "baseline aMags (i - BASELINE_OFFSET) = Some base"
    and p: "passes aMags (length aMags) i base dipIdx recIdx"
    and g3: "\<not> xlt (xsub (Num (real i)) (fst (snd st))) (Num MIN_SHOT_SAMPLES)"
    and g4: "\<not> (sample_time imuData i - snd (snd st) < MIN_SHOT_INTERVAL_MS \<and> snd (snd st) > 0)"
  shows "detectAll_body det imuData aMags i st =
     (case consensusFilter det aMags i dipIdx recIdx of
        Inl e \<Rightarrow> Inl e
      | Inr cons \<Rightarrow>
          if (case cons of Some c \<Rightarrow> \<not> isShot c | None \<Rightarrow> False) then Inr st
          else if (case calibrationFilter det imuData i dipIdx recIdx (mean base) of
                     Some r \<Rightarrow> \<not> cls_isShot r | None \<Rightarrow> False)
          then Inr st
          else Inr (fst st @ [\<lparr>idx = i, bufferIdx = None, mag = aMags ! i,
                      dipMag = aMags ! dipIdx, recoveryMag = aMags ! recIdx,
                      shot_range = aMags ! i - aMags ! dipIdx,
                      shot_t = t (imuData ! i), shot_tRel = tRel (imuData ! i),
                      consensus = cons,
                      calibResult = calibrationFilter det imuData i dipIdx recIdx (mean base)\<rparr>],
                    Num (real i), sample_time imuData i))"
proof -
  note body = detectAll_body_def Let_def
  note red = simp_thms if_True if_False option.case sum.case
  let ?effStd = "min (std base) MAX_EFFECTIVE_STD"
  let ?dipIdx = "findDip aMags i (min (length aMags) (i + DIP_SEARCH_WINDOW))"
  let ?recEnd = "min (length aMags) (?dipIdx + RECOVERY_SEARCH_WINDOW)"
  let ?recIdx = "findRec aMags ?dipIdx ?recEnd"
  from p have d: "dipIdx = ?dipIdx" unfolding passes_def by blast
  from p have r: "recIdx = ?recIdx" unfolding passes_def d by blast
  from p have g1: "\<not> (aMags ! i \<le> aMags ! (i - 1) \<or> aMags ! i < aMags ! (i + 1))"
    unfolding passes_def by (simp add: not_le not_less)
  from p have g2: "\<not> (aMags ! i < mean base + PEAK_SIGMA * ?effStd \<or> aMags ! i < MIN_PEAK_ABS)"
    unfolding passes_def by (simp add: not_le not_less)
  from p have g5: "\<not> (aMags ! ?dipIdx > mean base - DIP_SIGMA * std base
                      \<or> aMags ! ?dipIdx > MAX_DIP_ABS)"
    unfolding passes_def d by (simp add: not_le not_less)
  from p have g6: "\<not> (aMags ! i - aMags ! ?dipIdx
               < max MIN_PEAK_TO_DIP_ABS (?effStd * PEAK_TO_DIP_SIGMA))"
    unfolding passes_def d by (simp add: not_le not_less)
  from p have g7: "\<not> (?dipIdx + 1 \<ge> ?recEnd)"
    unfolding passes_def d by (simp add: not_le not_less)
  from p have g8: "\<not> (aMags ! ?recIdx < mean base + RECOVERY_SIGMA * ?effStd
               \<or> aMags ! ?recIdx - aMags ! ?dipIdx < MIN_RISE_FROM_DIP)"
    unfolding passes_def d r by (simp add: not_le not_less)
  note g4' = g4 [unfolded sample_time_def]
  show ?thesis
    unfolding d r sample_time_def
    unfolding body using g1 base g2 g3 g4' g5 g6 g7 g8 by (simp only: red)
qed


text \<open>
  One pass of the loop body records a shot at \<open>i\<close> exactly when all gates pass there;
  otherwise it leaves the state as it is.
\<close>

lemma filter_verdicts:
  "(case cons of Some c \<Rightarrow> isShot c | None \<Rightarrow> True)
     = (\<not> (case cons of Some c \<Rightarrow> \<not> isShot c | None \<Rightarrow> False))"
  "(case calib of Some r \<Rightarrow> cls_isShot r | None \<Rightarrow> True)
     = (\<not> (case calib of Some r \<Rightarrow> \<not> cls_isShot r | None \<Rightarrow> False))"
  by (simp_all split: option.splits)

lemma detectAll_body_step:
  assumes run: "detectAll_body det imuData (map aMag imuData) i st = Inr s1"
  shows "if (\<exists>base. baseline (map aMag imuData) (i - BASELINE_OFFSET) = Some base
               \<and> peak_gate (map aMag imuData) i base \<and> accepts det imuData i base)
            \<and> \<not> xlt (xsub (Num (real i)) (fst (snd st))) (Num MIN_SHOT_SAMPLES)
            \<and> \<not> (sample_time imuData i - snd (snd st) < MIN_SHOT_INTERVAL_MS
                 \<and> snd (snd st) > 0)
         then \<exists>sh. idx sh = i \<and> s1 = (fst st @ [sh], Num (real i), sample_time imuData i)
         else s1 = st"
proof -
  let ?aMags = "map aMag imuData"
  let ?dipIdx = "findDip ?aMags i (min (length ?aMags) (i + DIP_SEARCH_WINDOW))"
  let ?recIdx = "findRec ?aMags ?dipIdx (min (length ?aMags) (?dipIdx + RECOVERY_SEARCH_WINDOW))"
  let ?g3 = "\<not> xlt (xsub (Num (real i)) (fst (snd st))) (Num MIN_SHOT_SAMPLES)"
  let ?g4 = "\<not> (sample_time imuData i - snd (snd st) < MIN_SHOT_INTERVAL_MS \<and> snd (snd st) > 0)"
  let ?ok = "(\<exists>base. baseline ?aMags (i - BASELINE_OFFSET) = Some base
               \<and> peak_gate ?aMags i base \<and> accepts det imuData i base) \<and> ?g3 \<and> ?g4"
  have passed: "(if accepts det imuData i base
                 then \<exists>sh. idx sh = i \<and> s1 = (fst st @ [sh], Num (real i), sample_time imuData i)
                 else s1 = st)"
    if b: "baseline ?aMags (i - BASELINE_OFFSET) = Some base"
      and p: "passes ?aMags (length ?aMags) i base dipIdx recIdx" and g3: ?g3 and g4: ?g4
    for base dipIdx recIdx
  proof -
    from p have sh: "shape_gates ?aMags (length ?aMags) i base dipIdx recIdx"
      and d: "dipIdx = ?dipIdx"
      and r: "recIdx = findRec ?aMags dipIdx
                (min (length ?aMags) (dipIdx + RECOVERY_SEARCH_WINDOW))"
      unfolding passes_split by blast+
    note v = detectAll_body_passed [OF b p g3 g4, of det]
    have acc: "accepts det imuData i base \<longleftrightarrow>
        (case consensusFilter det ?aMags i dipIdx recIdx of
               Inl e \<Rightarrow> False
             | Inr cons \<Rightarrow> \<not> (case cons of Some c \<Rightarrow> \<not> isShot c | None \<Rightarrow> False))
         \<and> \<not> (case calibrationFilter det imuData i dipIdx recIdx (mean base) of
               Some r \<Rightarrow> \<not> cls_isShot r
             | None \<Rightarrow> False)"
      using sh unfolding accepts_def Let_def filter_verdicts d [symmetric] r [symmetric]
      by (simp only: simp_thms)
    show ?thesis
    proof (cases "consensusFilter det ?aMags i dipIdx recIdx")
      case (Inl e)
      with v run show ?thesis by simp
    next
      case (Inr cons)
      show ?thesis
      proof (cases "accepts det imuData i base")
        case True
        with acc Inr have n9: "\<not> (case cons of Some c \<Rightarrow> \<not> isShot c | None \<Rightarrow> False)"
          and n10: "\<not> (case calibrationFilter det imuData i dipIdx recIdx (mean base) of
               Some r \<Rightarrow> \<not> cls_isShot r | None \<Rightarrow> False)"
          by simp_all
        from v Inr n9 n10 have "detectAll_body det imuData ?aMags i st =
             Inr (fst st @ [\<lparr>idx = i, bufferIdx = None, mag = ?aMags ! i,
                      dipMag = ?aMags ! dipIdx, recoveryMag = ?aMags ! recIdx,
                      shot_range = ?aMags ! i - ?aMags ! dipIdx,
                      shot_t = t (imuData ! i), shot_tRel = tRel (imuData ! i),
                      consensus = cons,
                      calibResult = calibrationFilter det imuData i dipIdx recIdx (mean base)\<rparr>],
                    Num (real i), sample_time imuData i)"
          by (simp only: sum.case if_False)
        with run have "s1 = (fst st @ [\<lparr>idx = i, bufferIdx = None, mag = ?aMags ! i,
                      dipMag = ?aMags ! dipIdx, recoveryMag = ?aMags ! recIdx,
                      shot_range = ?aMags ! i - ?aMags ! dipIdx,
                      shot_t = t (imuData ! i), shot_tRel = tRel (imuData ! i),
                      consensus = cons,
                      calibResult = calibrationFilter det imuData i dipIdx recIdx (mean base)\<rparr>],
                    Num (real i), sample_time imuData i)"
          by (simp del: nth_map)
        then have "\<exists>sh. idx sh = i \<and> s1 = (fst st @ [sh], Num (real i), sample_time imuData i)"
          by (intro exI [of _ "\<lparr>idx = i, bufferIdx = None, mag = ?aMags ! i,
                      dipMag = ?aMags ! dipIdx, recoveryMag = ?aMags ! recIdx,
                      shot_range = ?aMags ! i - ?aMags ! dipIdx,
                      shot_t = t (imuData ! i), shot_tRel = tRel (imuData ! i),
                      consensus = cons,
                      calibResult = calibrationFilter det imuData i dipIdx recIdx (mean base)\<rparr>"])
             (simp del: nth_map)
        with True show ?thesis by (simp only: if_True)
      next
        case False
        let ?c9 = "case cons of Some c \<Rightarrow> \<not> isShot c | None \<Rightarrow> False"
        let ?c10 = "case calibrationFilter det imuData i dipIdx recIdx (mean base) of
               Some r \<Rightarrow> \<not> cls_isShot r | None \<Rightarrow> False"
        from False acc Inr have rej: "?c9 \<or> ?c10" by simp
        have "detectAll_body det imuData ?aMags i st = Inr st"
        proof (cases ?c9)
          case True
          with v Inr show ?thesis by (simp only: sum.case if_True)
        next
          case False
          with rej have ?c10 by simp
          with v Inr False show ?thesis by (simp only: sum.case if_True if_False)
        qed
        with run have "s1 = st" by simp
        with False show ?thesis by (simp only: if_False)
      qed
    qed
  qed
  show ?thesis
  proof (cases ?ok)
    case True
    then obtain base where b: "baseline ?aMags (i - BASELINE_OFFSET) = Some base"
      and pg: "peak_gate ?aMags i base" and ac: "accepts det imuData i base"
      and g3: ?g3 and g4: ?g4
      by blast
    from ac have "shape_gates ?aMags (length ?aMags) i base ?dipIdx ?recIdx"
      unfolding accepts_def Let_def by (simp only: simp_thms)
    with pg have p: "passes ?aMags (length ?aMags) i base ?dipIdx ?recIdx"
      unfolding passes_split by (simp only: simp_thms)
    from passed [OF b p g3 g4] ac
    have "\<exists>sh. idx sh = i \<and> s1 = (fst st @ [sh], Num (real i), sample_time imuData i)"
      by (simp only: if_True)
    with True show ?thesis by (simp only: if_True simp_thms)
  next
    case False
    from detectAll_body_cases [OF run] have "s1 = st"
    proof (elim disjE exE conjE)
      assume "Inr s1 = Inr st"
      then show ?thesis by simp
    next
      fix base dipIdx recIdx
      assume b: "baseline ?aMags (i - BASELINE_OFFSET) = Some base"
        and p: "passes ?aMags (length ?aMags) i base dipIdx recIdx"
        and g3: ?g3
        and g4': "\<not> (or_else (t (imuData ! i)) (or_else (tRel (imuData ! i)) 0)
                      - snd (snd st) < MIN_SHOT_INTERVAL_MS \<and> snd (snd st) > 0)"
      from g4' have g4: ?g4 unfolding sample_time_def .
      from p have pg: "peak_gate ?aMags i base" unfolding passes_split by blast
      from False b pg g3 g4 have "\<not> accepts det imuData i base" by blast
      with passed [OF b p g3 g4] show ?thesis by (simp only: if_False)
    qed
    with False show ?thesis by (simp only: if_False)
  qed
qed


text \<open>
  Along the loop the recorded shots only grow, at the scanned indices, and an index
  gets a shot exactly when its gates pass and it is clear of the last shot recorded
  before it.
\<close>

lemma clear_of_last_state:
  assumes "last_recorded imuData st" and "\<forall>s \<in> set (fst st). idx s < i"
  shows "clear_of_last (fst st) imuData i \<longleftrightarrow>
           \<not> xlt (xsub (Num (real i)) (fst (snd st))) (Num MIN_SHOT_SAMPLES)
           \<and> \<not> (sample_time imuData i - snd (snd st) < MIN_SHOT_INTERVAL_MS
                \<and> snd (snd st) > 0)"
proof -
  from assms(2) have f: "filter (\<lambda>s. idx s < i) (fst st) = fst st" by simp
  show ?thesis
  proof (cases "rev (fst st)")
    case Nil
    with assms(1) show ?thesis
      unfolding clear_of_last_def f last_recorded_def by simp
  next
    case (Cons s earlier)
    with assms(1) have l: "fst (snd st) = Num (real (idx s))"
      "snd (snd st) = sample_time imuData (idx s)"
      unfolding last_recorded_def by simp_all
    show ?thesis
      unfolding clear_of_last_def f Cons l by (simp add: sep_gate_Num)
  qed
qed

lemma clear_of_last_cong:
  "filter (\<lambda>s. idx s < i) A = filter (\<lambda>s. idx s < i) B \<Longrightarrow>
     clear_of_last A imuData i = clear_of_last B imuData i"
  by (simp add: clear_of_last_def)

lemma detectAll_loop_emits:
  assumes "detectAll_loop det imuData (map aMag imuData) js st = Inr st'"
    and "last_recorded imuData st"
    and "sorted_wrt (<) js"
    and "\<forall>j \<in> set js. \<forall>s \<in> set (fst st). idx s < j"
  shows "\<exists>ext. fst st' = fst st @ ext \<and> (\<forall>s \<in> set ext. idx s \<in> set js)
           \<and> (\<forall>i \<in> set js.
                 (\<exists>s \<in> set ext. idx s = i) \<longleftrightarrow>
                   (\<exists>base. baseline (map aMag imuData) (i - BASELINE_OFFSET) = Some base
                       \<and> peak_gate (map aMag imuData) i base \<and> accepts det imuData i base)
                   \<and> clear_of_last (fst st') imuData i)"
  using assms
proof (induction js arbitrary: st)
  case Nil
  then show ?case by simp
next
  case (Cons i js)
  let ?cand = "\<lambda>i. \<exists>base. baseline (map aMag imuData) (i - BASELINE_OFFSET) = Some base
                 \<and> peak_gate (map aMag imuData) i base \<and> accepts det imuData i base"
  let ?ok = "?cand i
      \<and> \<not> xlt (xsub (Num (real i)) (fst (snd st))) (Num MIN_SHOT_SAMPLES)
      \<and> \<not> (sample_time imuData i - snd (snd st) < MIN_SHOT_INTERVAL_MS \<and> snd (snd st) > 0)"
  from Cons.prems(1) obtain s1 where
    b: "detectAll_body det imuData (map aMag imuData) i st = Inr s1" and
    l: "detectAll_loop det imuData (map aMag imuData) js s1 = Inr st'"
    by (cases "detectAll_body det imuData (map aMag imuData) i st") simp_all
  from Cons.prems(3) have srt: "sorted_wrt (<) js" and lt: "\<forall>j \<in> set js. i < j" by simp_all
  from Cons.prems(4) have below: "\<forall>s \<in> set (fst st). idx s < i"
    and below': "\<forall>j \<in> set js. \<forall>s \<in> set (fst st). idx s < j" by simp_all
  note step = detectAll_body_step [OF b]
  have "\<exists>new. fst s1 = fst st @ new \<and> (\<forall>s \<in> set new. idx s = i) \<and> (new \<noteq> [] \<longleftrightarrow> ?ok)
          \<and> last_recorded imuData s1"
  proof (cases ?ok)
    case True
    with step have "\<exists>sh. idx sh = i \<and> s1 = (fst st @ [sh], Num (real i), sample_time imuData i)"
      by (simp only: if_True simp_thms)
    then obtain sh where sh: "idx sh = i"
      "s1 = (fst st @ [sh], Num (real i), sample_time imuData i)"
      by blast
    have "last_recorded imuData s1" unfolding sh(2) last_recorded_def by (simp add: sh(1))
    with True sh show ?thesis by (intro exI [of _ "[sh]"]) simp
  next
    case False
    with step have "s1 = st" by (simp only: if_False)
    with False Cons.prems(2) show ?thesis by (intro exI [of _ "[]"]) simp
  qed
  then obtain new where new: "fst s1 = fst st @ new" "\<forall>s \<in> set new. idx s = i"
    "new \<noteq> [] \<longleftrightarrow> ?ok" "last_recorded imuData s1"
    by blast
  have "\<forall>j \<in> set js. \<forall>s \<in> set (fst s1). idx s < j"
    using below' lt new(1,2) by auto
  from Cons.IH [OF l new(4) srt this] obtain ext' where
    e: "fst st' = fst s1 @ ext'" "\<forall>s \<in> set ext'. idx s \<in> set js"
    "\<forall>k \<in> set js. (\<exists>s \<in> set ext'. idx s = k) \<longleftrightarrow> ?cand k \<and> clear_of_last (fst st') imuData k"
    by blast
  have st': "fst st' = fst st @ (new @ ext')" using e(1) new(1) by simp
  have in_js: "\<forall>s \<in> set (new @ ext'). idx s \<in> set (i # js)" using new(2) e(2) by auto
  have ext'_gt: "\<forall>s \<in> set ext'. i < idx s" using e(2) lt by blast
  have "filter (\<lambda>s. idx s < i) (fst st') = filter (\<lambda>s. idx s < i) (fst st)"
  proof -
    have "filter (\<lambda>s. idx s < i) new = []" using new(2) by (simp add: filter_empty_conv)
    moreover have "filter (\<lambda>s. idx s < i) ext' = []"
      using ext'_gt by (auto simp: filter_empty_conv)
    ultimately show ?thesis unfolding st' by simp
  qed
  then have "clear_of_last (fst st') imuData i = clear_of_last (fst st) imuData i"
    by (rule clear_of_last_cong)
  also note clear_of_last_state [OF Cons.prems(2) below]
  finally have cl: "clear_of_last (fst st') imuData i \<longleftrightarrow>
           \<not> xlt (xsub (Num (real i)) (fst (snd st))) (Num MIN_SHOT_SAMPLES)
           \<and> \<not> (sample_time imuData i - snd (snd st) < MIN_SHOT_INTERVAL_MS
                \<and> snd (snd st) > 0)" .
  have at_i: "(\<exists>s \<in> set (new @ ext'). idx s = i) \<longleftrightarrow> ?cand i \<and> clear_of_last (fst st') imuData i"
  proof -
    have "(\<exists>s \<in> set (new @ ext'). idx s = i) \<longleftrightarrow> new \<noteq> []"
    proof
      assume "\<exists>s \<in> set (new @ ext'). idx s = i"
      then obtain s where "s \<in> set new \<or> s \<in> set ext'" "idx s = i" by auto
      with ext'_gt have "s \<in> set new" by auto
      then show "new \<noteq> []" by auto
    next
      assume "new \<noteq> []"
      then obtain s where "s \<in> set new" by (cases new) auto
      with new(2) show "\<exists>s \<in> set (new @ ext'). idx s = i" by auto
    qed
    also have "\<dots> \<longleftrightarrow> ?ok" by (rule new(3))
    also have "\<dots> \<longleftrightarrow> ?cand i \<and> clear_of_last (fst st') imuData i" unfolding cl ..
    finally show ?thesis .
  qed
  have at_k: "(\<exists>s \<in> set (new @ ext'). idx s = k) \<longleftrightarrow> ?cand k \<and> clear_of_last (fst st') imuData k"
    if "k \<in> set js" for k
  proof -
    from that lt have "i < k" by simp
    with new(2) have "(\<exists>s \<in> set (new @ ext'). idx s = k) \<longleftrightarrow> (\<exists>s \<in> set ext'. idx s = k)"
      by auto
    with e(3) that show ?thesis by simp
  qed
  from at_i at_k have "\<forall>k \<in> set (i # js).
      (\<exists>s \<in> set (new @ ext'). idx s = k) \<longleftrightarrow> ?cand k \<and> clear_of_last (fst st') imuData k"
    by simp
  with st' in_js show ?case by (intro exI [of _ "new @ ext'"]) (simp only: simp_thms)
qed

lemma detectAll_emits:
  assumes "detectAll det imuData = Inr shots"
  shows "(\<exists>s \<in> set shots. idx s = i) \<longleftrightarrow>
           100 \<le> i \<and> i + 65 < length imuData
           \<and> (\<exists>base. baseline (map aMag imuData) (i - 20) = Some base
                 \<and> peak_gate (map aMag imuData) i base \<and> accepts det imuData i base)
           \<and> clear_of_last shots imuData i"
proof -
  let ?aMags = "map aMag imuData"
  let ?js = "[BASELINE_WINDOW + BASELINE_OFFSET ..<
              length ?aMags - DIP_SEARCH_WINDOW - RECOVERY_SEARCH_WINDOW]"
  from assms obtain st where
    l: "detectAll_loop det imuData ?aMags ?js ([], NegInf, 0) = Inr st" and
    st: "shots = fst st"
    by (auto simp: detectAll_def Let_def split: sum.splits)
  have init: "last_recorded imuData ([], NegInf, 0)" by (simp add: last_recorded_def)
  have js: "i \<in> set ?js \<longleftrightarrow> 100 \<le> i \<and> i + 65 < length imuData"
    by (auto simp: thresholds)
  from detectAll_loop_emits [OF l init] obtain ext where
    e: "fst st = [] @ ext" "\<forall>s \<in> set ext. idx s \<in> set ?js"
    "\<forall>i \<in> set ?js.
        (\<exists>s \<in> set ext. idx s = i) \<longleftrightarrow>
          (\<exists>base. baseline ?aMags (i - BASELINE_OFFSET) = Some base
              \<and> peak_gate ?aMags i base \<and> accepts det imuData i base)
          \<and> clear_of_last (fst st) imuData i"
    by auto
  from e(1) st have sh: "shots = ext" by simp
  show ?thesis
  proof (cases "i \<in> set ?js")
    case True
    with e(3) have "(\<exists>s \<in> set ext. idx s = i) \<longleftrightarrow>
          (\<exists>base. baseline ?aMags (i - BASELINE_OFFSET) = Some base
              \<and> peak_gate ?aMags i base \<and> accepts det imuData i base)
          \<and> clear_of_last (fst st) imuData i"
      by blast
    with True js show ?thesis unfolding sh st [symmetric] by (simp add: BASELINE_OFFSET_def)
  next
    case False
    with e(2) have "\<not> (\<exists>s \<in> set ext. idx s = i)" by blast
    with False js show ?thesis unfolding sh by blast
  qed
qed

text \<open>A quorum above the number of methods rejects every candidate.\<close>

lemma accepts_quorum_5:
  assumes "useConsensus det" and "minVotes (consensusOpts det) = Some 5"
  shows "\<not> accepts det imuData i base"
proof -
  have "\<not> isShot c" if "evaluate aMags i d r (consensusOpts det) = Inr c" for aMags d r c
  proof -
    from that obtain dd where
      c: "c = tally [windowSigma aMags i (opt_windowSigma (consensusOpts det)),
                     envelopeRatio aMags i (opt_envelopeRatio (consensusOpts det)),
                     dd,
                     peakProminence aMags i (opt_peakProminence (consensusOpts det))]
              (consensusOpts det)"
      by (auto simp: evaluate_def split: sum.splits)
    have "length (filter vote [windowSigma aMags i (opt_windowSigma (consensusOpts det)),
                     envelopeRatio aMags i (opt_envelopeRatio (consensusOpts det)),
                     dd,
                     peakProminence aMags i (opt_peakProminence (consensusOpts det))]) \<le> 4"
      by (rule order_trans [OF length_filter_le]) simp
    then show ?thesis unfolding c tally_fields assms(2) by simp
  qed
  then show ?thesis
    unfolding accepts_def Let_def consensusFilter_def using assms(1)
    by (auto split: sum.splits)
qed

subsection \<open>The peak gate under heavy motion\<close>

lemma foldl_add_pairs:
  "foldl (+) a (concat (replicate n [x, y::real])) = a + real n * (x + y)"
  by (induction n arbitrary: a) (simp_all add: distrib_right)

lemma foldl_sq_pairs:
  "foldl (\<lambda>a v. a + (v - m)\<^sup>2) a (concat (replicate n [x, y::real]))
     = a + real n * ((x - m)\<^sup>2 + (y - m)\<^sup>2)"
  by (induction n arbitrary: a) (simp_all add: distrib_right)

lemma nth_pairs:
  "i < 2 * n \<Longrightarrow> concat (replicate n [x, y]) ! i = (if even i then x else y)"
proof (induction n arbitrary: i)
  case 0
  then show ?case by simp
next
  case (Suc n)
  show ?case
  proof (cases "i < 2")
    case True
    then have "i = 0 \<or> i = 1" by auto
    then show ?thesis by auto
  next
    case False
    then have "2 \<le> i" by simp
    then obtain k where k: "i = 2 + k" using le_Suc_ex by blast
    with Suc.prems have "k < 2 * n" by simp
    from Suc.IH [OF this] k show ?thesis by simp
  qed
qed

lemma length_pairs [simp]: "length (concat (replicate n [x, y])) = 2 * n"
  by (induction n) simp_all

lemma aMags_C:
  "map aMag signal_C =
     concat (replicate 40 [(39 / 4), (59 / 4)]) @ concat (replicate 10 [(39 / 4), (59 / 4)])
       @ [16, 2, 15] @ concat (replicate 32 [(39 / 4), (59 / 4)])"
  by (simp add: signal_C_def map_concat)

lemma base_C: "baseline (map aMag signal_C) 80 = Some \<lparr>mean = (49 / 4), std = 2.5\<rparr>"
proof -
  have sl: "slice (map aMag signal_C) 0 80 = concat (replicate 40 [(39 / 4), (59 / 4)])"
    unfolding aMags_C by (simp add: slice_def)
  have m: "mean_of (concat (replicate 40 [(39 / 4), (59 / 4)])) = (49 / 4)"
    by (simp add: mean_of_def foldl_add_pairs)
  have v: "variance_of (concat (replicate 40 [(39 / 4), (59 / 4)])) (49 / 4) = 25 / 4"
    unfolding variance_of_def foldl_sq_pairs by (simp add: power2_eq_square)
  have "sqrt (25 / 4) = 5 / 2" by (simp add: real_sqrt_divide)
  then show ?thesis
    by (simp add: baseline_def BASELINE_WINDOW_def Let_def sl m v)
qed

lemma dip_C: "findDip (map aMag signal_C) 100 135 = 101"
  unfolding aMags_C findDip_def by (simp add: nth_append nth_pairs)

lemma rec_C: "findRec (map aMag signal_C) 101 131 = 102"
  unfolding aMags_C findRec_def by (simp add: nth_append nth_pairs)

lemma body_C:
  "detectAll_body new_ShotDetector signal_C (map aMag signal_C) 100 ([], NegInf, 0)
     = Inr ([shot_C], Num 100, 0)"
proof -
  have nth: "map aMag signal_C ! 100 = 16" "map aMag signal_C ! 99 = (59 / 4)"
    "map aMag signal_C ! 101 = 2" "map aMag signal_C ! 102 = 15"
    "length (map aMag signal_C) = 167"
    unfolding aMags_C by (simp_all add: nth_append nth_pairs)
  have s: "signal_C ! 100 = smp 16"
    by (simp add: signal_C_def nth_append)
  show ?thesis
    unfolding detectAll_body_def Let_def
    by (simp add: thresholds nth s base_C dip_C rec_C xsub_def consensusFilter_def
        calibrationFilter_def new_ShotDetector_def shot_C_def del: nth_map length_map)
qed

lemma body_C_101:
  "detectAll_body new_ShotDetector signal_C (map aMag signal_C) 101 st = Inr st"
proof -
  have nth: "map aMag signal_C ! 100 = 16" "map aMag signal_C ! 101 = 2"
    unfolding aMags_C by (simp_all add: nth_append)
  show ?thesis
    unfolding detectAll_body_def Let_def by (simp add: nth del: nth_map)
qed

lemma detectAll_C: "detectAll new_ShotDetector signal_C = Inr [shot_C]"
proof -
  have b: "BASELINE_WINDOW + BASELINE_OFFSET = 100"
    "length (map aMag signal_C) - DIP_SEARCH_WINDOW - RECOVERY_SEARCH_WINDOW = 102"
    by (simp_all add: thresholds signal_C_def)
  have js: "[100 ..< 102] = [100, 101]"
    by (simp add: upt_conv_Cons del: upt_Suc)
  show ?thesis
    unfolding detectAll_def Let_def b js
    by (simp add: body_C body_C_101 del: nth_map)
qed

text \<open>
  Counterexample to claim C4 as stated: in \<open>signal_C\<close> the baseline of the candidate
  at index 100 has mean (49 / 4) and standard deviation 2.5, the candidate is 16, which
  is the mean plus 1.5 standard deviations, and \<^verbatim>\<open>detectAll\<close> records a shot at
  index 100.
\<close>

theorem C4_counterexample:
  "detectAll new_ShotDetector signal_C = Inr [shot_C]
   \<and> idx shot_C = 100 \<and> mag shot_C = 16
   \<and> aMag (signal_C ! 100) = 16
   \<and> baseline (map aMag signal_C) (100 - 20) = Some \<lparr>mean = (49 / 4), std = 2.5\<rparr>
   \<and> (16::real) = (49 / 4) + 1.5 * 2.5"
  using detectAll_C base_C by (simp add: shot_C_def signal_C_def nth_append)

text \<open>
  Claim C4, as the source has it. The peak gate uses the capped standard deviation
  \<open>min std 1.5\<close>: a recorded shot has a peak of at least \<open>mean + 2.5 \<sqdot> min std 1.5\<close>
  and at least 14. For a baseline with standard deviation 2.5 the sigma threshold is
  therefore \<open>mean + 3.75\<close>, which is \<open>mean + 1.5 \<sqdot> std\<close>: the peak gate passes
  exactly when the candidate is at least 1.5 standard deviations above the baseline
  mean and at least 14, so a candidate (of 16 or any other value) that is less than
  1.5 standard deviations above the mean is rejected and one exactly 1.5 standard
  deviations above it is not. There is no stricter gate under movement.
  \<^verbatim>\<open>detectAll\<close> records a shot at index \<open>i\<close> exactly when \<open>i\<close> is scanned
  (\<open>100 \<le> i\<close> and \<open>i + 65 < length\<close>), there is a baseline, the peak gate and the
  other gates pass (local maximum, dip, range, recovery, and the consensus and
  calibration filters where they are on), and the last shot recorded before \<open>i\<close> is
  at least 60 samples back and, by sample time, at least 1200 ms back (or its sample
  time is not positive).
\<close>

theorem C4_peak_gate_capped:
  "detectAll det imuData = Inr shots \<longrightarrow>
     (\<forall>s \<in> set shots. \<exists>base.
        baseline (map aMag imuData) (idx s - 20) = Some base
        \<and> mag s = map aMag imuData ! idx s
        \<and> mag s \<ge> mean base + 2.5 * min (std base) 1.5
        \<and> mag s \<ge> 14
        \<and> (std base = 2.5 \<longrightarrow> mag s \<ge> mean base + 1.5 * std base))
     \<and> (\<forall>i. (\<exists>s \<in> set shots. idx s = i) \<longleftrightarrow>
           100 \<le> i \<and> i + 65 < length imuData
           \<and> (\<exists>base. baseline (map aMag imuData) (i - 20) = Some base
                 \<and> peak_gate (map aMag imuData) i base \<and> accepts det imuData i base)
           \<and> clear_of_last shots imuData i)
     \<and> (\<forall>i base. std base = 2.5 \<longrightarrow>
           (peak_gate (map aMag imuData) i base \<longleftrightarrow>
              map aMag imuData ! i \<ge> mean base + 1.5 * std base
              \<and> map aMag imuData ! i \<ge> 14))"
proof (intro impI conjI allI)
  fix i
  assume "detectAll det imuData = Inr shots"
  then show "(\<exists>s \<in> set shots. idx s = i) \<longleftrightarrow>
           100 \<le> i \<and> i + 65 < length imuData
           \<and> (\<exists>base. baseline (map aMag imuData) (i - 20) = Some base
                 \<and> peak_gate (map aMag imuData) i base \<and> accepts det imuData i base)
           \<and> clear_of_last shots imuData i"
    by (rule detectAll_emits)
next
  fix i :: nat and base :: stats
  assume "std base = 2.5"
  then show "peak_gate (map aMag imuData) i base \<longleftrightarrow>
              map aMag imuData ! i \<ge> mean base + 1.5 * std base
              \<and> map aMag imuData ! i \<ge> 14"
    unfolding peak_gate_def thresholds by auto
next
  assume d: "detectAll det imuData = Inr shots"
  show "\<forall>s \<in> set shots. \<exists>base.
        baseline (map aMag imuData) (idx s - 20) = Some base
        \<and> mag s = map aMag imuData ! idx s
        \<and> mag s \<ge> mean base + 2.5 * min (std base) 1.5
        \<and> mag s \<ge> 14
        \<and> (std base = 2.5 \<longrightarrow> mag s \<ge> mean base + 1.5 * std base)"
  proof
    fix s
    assume "s \<in> set shots"
    from detectAll_shots [OF d this] obtain base dipIdx recIdx where
      b: "baseline (map aMag imuData) (idx s - BASELINE_OFFSET) = Some base" and
      p: "passes (map aMag imuData) (length imuData) (idx s) base dipIdx recIdx" and
      m: "mag s = map aMag imuData ! idx s"
      by blast
    from p have g: "map aMag imuData ! idx s \<ge> mean base + 2.5 * min (std base) 1.5"
      "map aMag imuData ! idx s \<ge> 14"
      unfolding passes_def by (simp_all add: thresholds)
    from b have b': "baseline (map aMag imuData) (idx s - 20) = Some base"
      by (simp add: thresholds)
    from g(1) have "std base = 2.5 \<longrightarrow> map aMag imuData ! idx s \<ge> mean base + 1.5 * std base"
      by auto
    with b' m g show "\<exists>base.
        baseline (map aMag imuData) (idx s - 20) = Some base
        \<and> mag s = map aMag imuData ! idx s
        \<and> mag s \<ge> mean base + 2.5 * min (std base) 1.5
        \<and> mag s \<ge> 14
        \<and> (std base = 2.5 \<longrightarrow> mag s \<ge> mean base + 1.5 * std base)"
      by (intro exI [of _ base]) (simp del: nth_map)
  qed
qed

theorem C4_peak_gate_capped_witness:
  "detectAll new_ShotDetector signal_C = Inr [shot_C]
   \<and> baseline (map aMag signal_C) (idx shot_C - 20) = Some \<lparr>mean = (49 / 4), std = 2.5\<rparr>
   \<and> std \<lparr>mean = (49 / 4), std = 2.5\<rparr> = 2.5
   \<and> mag shot_C \<ge> mean \<lparr>mean = (49 / 4), std = 2.5\<rparr> + 1.5 * std \<lparr>mean = (49 / 4), std = 2.5\<rparr>
   \<and> mag shot_C \<ge> 14
   \<and> map aMag signal_C ! 100 = 49 / 4 + 1.5 * 2.5
   \<and> peak_gate (map aMag signal_C) 100 \<lparr>mean = (49 / 4), std = 2.5\<rparr>
   \<and> accepts new_ShotDetector signal_C 100 \<lparr>mean = (49 / 4), std = 2.5\<rparr>
   \<and> clear_of_last [shot_C] signal_C 100
   \<and> \<not> peak_gate (map aMag signal_C) 102 \<lparr>mean = (49 / 4), std = 2.5\<rparr>
   \<and> \<not> accepts detector_5 signal_C 100 \<lparr>mean = (49 / 4), std = 2.5\<rparr>
   \<and> detectAll detector_5 signal_C = Inr []"
proof -
  have b: "baseline (map aMag signal_C) (idx shot_C - 20) = Some \<lparr>mean = (49 / 4), std = 2.5\<rparr>"
    using base_C by (simp add: shot_C_def)
  note C = C4_peak_gate_capped [of new_ShotDetector signal_C "[shot_C]", THEN mp, OF detectAll_C]
  from C [THEN conjunct1]
  obtain base where
    "baseline (map aMag signal_C) (idx shot_C - 20) = Some base"
    "mag shot_C \<ge> 14"
    "std base = 2.5 \<longrightarrow> mag shot_C \<ge> mean base + 1.5 * std base"
    by auto
  with b have m: "mag shot_C \<ge> mean \<lparr>mean = (49 / 4), std = 2.5\<rparr> + 1.5 * std \<lparr>mean = (49 / 4), std = 2.5\<rparr>"
    "mag shot_C \<ge> 14"
    by auto
  have "\<exists>s \<in> set [shot_C]. idx s = 100" by (simp add: shot_C_def)
  with C [THEN conjunct2, THEN conjunct1, rule_format, of 100]
  have "(\<exists>base. baseline (map aMag signal_C) (100 - 20) = Some base
                 \<and> peak_gate (map aMag signal_C) 100 base
                 \<and> accepts new_ShotDetector signal_C 100 base)"
    and cl: "clear_of_last [shot_C] signal_C 100"
    by blast+
  with b have pa: "peak_gate (map aMag signal_C) 100 \<lparr>mean = (49 / 4), std = 2.5\<rparr>"
    "accepts new_ShotDetector signal_C 100 \<lparr>mean = (49 / 4), std = 2.5\<rparr>"
    by (auto simp: shot_C_def)
  have n100: "map aMag signal_C ! 100 = 49 / 4 + 1.5 * 2.5"
    unfolding aMags_C by (simp add: nth_append)
  have n102: "map aMag signal_C ! 102 = 15"
    unfolding aMags_C by (simp add: nth_append)
  from C [THEN conjunct2, THEN conjunct2, rule_format, of "\<lparr>mean = (49 / 4), std = 2.5\<rparr>" 102]
  have "\<not> peak_gate (map aMag signal_C) 102 \<lparr>mean = (49 / 4), std = 2.5\<rparr>"
    unfolding n102 by simp
  then have np: "\<not> peak_gate (map aMag signal_C) 102 \<lparr>mean = (49 / 4), std = 2.5\<rparr>" .
  have a5: "\<not> accepts detector_5 signal_C i base" for i base
    by (rule accepts_quorum_5) (simp_all add: detector_5_def no_opts_def)
  from detectAll_returns [of detector_5 signal_C] obtain shots where
    d5: "detectAll detector_5 signal_C = Inr shots" by blast
  from C4_peak_gate_capped [of detector_5 signal_C shots, THEN mp, OF d5, THEN conjunct2,
      THEN conjunct1] a5
  have "\<not> (\<exists>s \<in> set shots. idx s = i)" for i by blast
  then have "shots = []" by (cases shots) auto
  with d5 have e5: "detectAll detector_5 signal_C = Inr []" by simp
  from detectAll_C b m n100 pa cl np a5 e5 show ?thesis by simp
qed
subsection \<open>Properties of the movement detector\<close>

lemma window_after_length:
  "length (window_after md a) =
     (if length (window md) \<ge> MOVEMENT_WINDOW then length (window md) else length (window md) + 1)"
  by (simp add: window_after_def Let_def)

lemma processSample_not_full:
  assumes "length (window md) + 1 < 20"
  shows "MovementDetector_processSample md a now = (isMoving md, md\<lparr>window := window md @ [a]\<rparr>)"
  using assms
  by (simp add: MovementDetector_processSample_def window_after_def Let_def MOVEMENT_WINDOW_def)

lemma processSample_full:
  assumes "20 \<le> length (window_after md a)"
  shows "MovementDetector_processSample md a now =
     (let sd = window_std (window_after md a);
          md2 = md\<lparr>window := window_after md a,
                   intensity := max 0 (min 1 ((sd - 0.3) / 1.5))\<rparr>;
          md3 = (if sd > 0.8 then
                   (if isMoving md then md2\<lparr>lastTransitionTime := now\<rparr>
                    else md2\<lparr>isMoving := True, lastTransitionTime := now\<rparr>)
                 else
                   (if isMoving md then
                      (if now - lastTransitionTime md > 800
                       then md2\<lparr>isMoving := False, lastTransitionTime := now\<rparr> else md2)
                    else md2\<lparr>lastTransitionTime := now\<rparr>))
      in (isMoving md3, md3))"
  using assms
  by (simp add: MovementDetector_processSample_def Let_def MOVEMENT_WINDOW_def
      MOVEMENT_THRESHOLD_def MOVEMENT_HYSTERESIS_MS_def)

lemma processSample_window [simp]:
  "window (snd (MovementDetector_processSample md a now)) = window_after md a"
  by (simp add: MovementDetector_processSample_def Let_def)

lemma processSample_fst [simp]:
  "fst (MovementDetector_processSample md a now) =
     isMoving (snd (MovementDetector_processSample md a now))"
  by (simp add: MovementDetector_processSample_def Let_def)

lemma run_snoc:
  "MovementDetector_run md (evs @ [(a, now)]) =
     snd (MovementDetector_processSample (MovementDetector_run md evs) a now)"
  by (induction md evs rule: MovementDetector_run.induct) simp_all

lemma lastFlip_snoc:
  "lastFlip md f (evs @ [(a, now)]) =
     (if isMoving (MovementDetector_run md (evs @ [(a, now)])) \<noteq> isMoving (MovementDetector_run md evs)
      then Some now else lastFlip md f evs)"
  by (induction md f evs rule: lastFlip.induct) (simp_all add: Let_def)

text \<open>In a run from a new detector the window holds the last 20 readings.\<close>

lemma run_window:
  "window (MovementDetector_run new_MovementDetector evs) = drop (length evs - 20) (map fst evs)"
proof (induction evs rule: rev_induct)
  case Nil
  then show ?case by (simp add: new_MovementDetector_def)
next
  case (snoc e evs)
  obtain a now where e: "e = (a, now)" by (cases e)
  let ?xs = "map fst evs"
  show ?case
  proof (cases "length evs < 20")
    case True
    with snoc show ?thesis
      by (simp add: e run_snoc window_after_def Let_def MOVEMENT_WINDOW_def)
  next
    case False
    then have n: "20 \<le> length evs" by simp
    then have "drop (length evs - 20) ?xs \<noteq> []" by simp
    then have "tl (drop (length evs - 20) ?xs @ [a]) = drop (Suc (length evs - 20)) ?xs @ [a]"
      by (simp add: tl_append2 drop_Suc tl_drop)
    moreover have "Suc (length evs - 20) = Suc (length evs) - 20" using n by simp
    ultimately show ?thesis using snoc n
      by (simp add: e run_snoc window_after_def Let_def MOVEMENT_WINDOW_def)
  qed
qed

text \<open>
  With timestamps that do not decrease, the time of the last state change is never
  after \<^verbatim>\<open>lastTransitionTime\<close>.
\<close>

lemma flip_before_transition:
  assumes "sorted (map snd evs)"
  shows "(isMoving (MovementDetector_run new_MovementDetector evs) \<longrightarrow>
            lastFlip new_MovementDetector None evs \<noteq> None)
         \<and> (\<forall>f. lastFlip new_MovementDetector None evs = Some f \<longrightarrow>
               f \<le> lastTransitionTime (MovementDetector_run new_MovementDetector evs)
               \<and> (evs \<noteq> [] \<longrightarrow> f \<le> snd (last evs)))"
  using assms
proof (induction evs rule: rev_induct)
  case Nil
  then show ?case by (simp add: new_MovementDetector_def)
next
  case (snoc e evs)
  obtain a now where e: "e = (a, now)" by (cases e)
  let ?md = "MovementDetector_run new_MovementDetector evs"
  let ?md' = "snd (MovementDetector_processSample ?md a now)"
  let ?f = "lastFlip new_MovementDetector None evs"
  from snoc.prems have srt: "sorted (map snd evs)" and le: "\<forall>x \<in> set (map snd evs). x \<le> now"
    by (simp_all add: e sorted_append)
  note IH = snoc.IH [OF srt]
  have last_le: "evs \<noteq> [] \<Longrightarrow> snd (last evs) \<le> now"
    using le by (simp add: last_in_set)
  show ?case
  proof (cases "isMoving ?md' \<noteq> isMoving ?md")
    case True
    then have f: "lastFlip new_MovementDetector None (evs @ [e]) = Some now"
      by (simp add: e lastFlip_snoc run_snoc)
    have full: "20 \<le> length (window_after ?md a)"
    proof (rule ccontr)
      assume "\<not> 20 \<le> length (window_after ?md a)"
      then have "length (window ?md) + 1 < 20"
        by (simp add: window_after_length MOVEMENT_WINDOW_def split: if_splits)
      from processSample_not_full [OF this] True show False by simp
    qed
    from True have "lastTransitionTime ?md' = now"
      unfolding processSample_full [OF full] by (auto simp: Let_def split: if_splits)
    with f show ?thesis by (auto simp: e run_snoc)
  next
    case False
    then have f: "lastFlip new_MovementDetector None (evs @ [e]) = ?f"
      by (simp add: e lastFlip_snoc run_snoc)
    have ltt: "lastTransitionTime ?md' = lastTransitionTime ?md \<or> lastTransitionTime ?md' = now"
      by (auto simp: MovementDetector_processSample_def Let_def)
    have "x \<le> lastTransitionTime ?md'" if "?f = Some x" for x
    proof -
      from IH that have a: "x \<le> lastTransitionTime ?md" by blast
      have "x \<le> now"
      proof (cases "evs = []")
        case True
        with that show ?thesis by simp
      next
        case False
        with IH that have "x \<le> snd (last evs)" by blast
        with last_le [OF False] show ?thesis by simp
      qed
      with a ltt show ?thesis by auto
    qed
    moreover have "x \<le> now" if "?f = Some x" for x
    proof (cases "evs = []")
      case True
      with that show ?thesis by simp
    next
      case False
      with IH that have "x \<le> snd (last evs)" by blast
      with last_le [OF False] show ?thesis by simp
    qed
    ultimately show ?thesis using IH False f
      by (auto simp: e run_snoc)
  qed
qed

text \<open>
  While a run from a new detector is moving, \<^verbatim>\<open>lastTransitionTime\<close> is the time of
  the last call whose reading exceeded the threshold: the call that started the
  movement sets it, every later call with a reading above the threshold sets it
  again, and a call with a reading that does not exceed the threshold leaves it.
\<close>

lemma reading_snoc: "j < length evs \<Longrightarrow> reading (evs @ [e]) j = reading evs j"
  by (simp add: reading_def)

lemma reading_last:
  "reading (evs @ [(a, now)]) (length evs)
     = window_std (window_after (MovementDetector_run new_MovementDetector evs) a)"
  by (simp add: reading_def run_snoc)

lemma run_window_length:
  "length (window (MovementDetector_run new_MovementDetector evs)) = min 20 (length evs)"
  by (simp add: run_window)

lemma moving_since:
  "isMoving (MovementDetector_run new_MovementDetector evs) \<Longrightarrow>
     \<exists>k < length evs. 19 \<le> k \<and> reading evs k > 0.8
        \<and> lastTransitionTime (MovementDetector_run new_MovementDetector evs) = snd (evs ! k)
        \<and> (\<forall>j. k < j \<and> j < length evs \<longrightarrow> \<not> reading evs j > 0.8)"
proof (induction evs rule: rev_induct)
  case Nil
  then show ?case by (simp add: new_MovementDetector_def)
next
  case (snoc e evs)
  obtain a now where e: "e = (a, now)" by (cases e)
  let ?md = "MovementDetector_run new_MovementDetector evs"
  let ?md' = "snd (MovementDetector_processSample ?md a now)"
  let ?n = "length evs"
  from snoc.prems have mv': "isMoving ?md'" by (simp add: e run_snoc)
  have run': "MovementDetector_run new_MovementDetector (evs @ [e]) = ?md'"
    by (simp add: e run_snoc)
  have keep: "\<exists>k < length (evs @ [e]). 19 \<le> k \<and> reading (evs @ [e]) k > 0.8
        \<and> lastTransitionTime ?md' = snd ((evs @ [e]) ! k)
        \<and> (\<forall>j. k < j \<and> j < length (evs @ [e]) \<longrightarrow> \<not> reading (evs @ [e]) j > 0.8)"
    if mv: "isMoving ?md" and same: "lastTransitionTime ?md' = lastTransitionTime ?md"
      and low: "\<not> reading (evs @ [e]) ?n > 0.8"
  proof -
    from snoc.IH [OF mv] obtain k where k: "k < ?n" "19 \<le> k" "reading evs k > 0.8"
      "lastTransitionTime ?md = snd (evs ! k)"
      "\<forall>j. k < j \<and> j < ?n \<longrightarrow> \<not> reading evs j > 0.8"
      by blast
    have "\<not> reading (evs @ [e]) j > 0.8" if "k < j" "j < length (evs @ [e])" for j
    proof (cases "j < ?n")
      case True
      with k(5) that show ?thesis by (simp add: reading_snoc)
    next
      case False
      with that have "j = ?n" by simp
      with low show ?thesis by simp
    qed
    with k same show ?thesis
      by (intro exI [of _ k]) (simp add: reading_snoc nth_append)
  qed
  show ?case
  proof (cases "20 \<le> length (window_after ?md a)")
    case False
    then have nf: "length (window ?md) + 1 < 20"
      by (simp add: window_after_length MOVEMENT_WINDOW_def split: if_splits)
    from processSample_not_full [OF nf] mv' have mv: "isMoving ?md" by simp
    from snoc.IH [OF mv] obtain k where "k < ?n" "19 \<le> k" by blast
    with nf show ?thesis by (simp add: run_window_length)
  next
    case full: True
    then have n19: "19 \<le> ?n"
      by (simp add: window_after_length run_window_length MOVEMENT_WINDOW_def split: if_splits)
    have rl: "reading (evs @ [e]) ?n = window_std (window_after ?md a)"
      by (simp add: e reading_last)
    show ?thesis
    proof (cases "window_std (window_after ?md a) > 0.8")
      case True
      then have "lastTransitionTime ?md' = now"
        unfolding processSample_full [OF full] by (simp add: Let_def)
      with True rl n19 show ?thesis
        unfolding run' by (intro exI [of _ ?n]) (simp add: e)
    next
      case False
      with mv' have mv: "isMoving ?md" and same: "lastTransitionTime ?md' = lastTransitionTime ?md"
        unfolding processSample_full [OF full] by (auto simp: Let_def split: if_splits)
      from False rl have "\<not> reading (evs @ [e]) ?n > 0.8" by simp
      from keep [OF mv same this] show ?thesis unfolding run' .
    qed
  qed
qed


lemma stop_iff_dwell:
  assumes mv: "isMoving (MovementDetector_run new_MovementDetector evs)"
  shows "\<not> fst (MovementDetector_processSample
               (MovementDetector_run new_MovementDetector evs) a now) \<longleftrightarrow>
         (\<exists>k < length evs. 19 \<le> k \<and> reading evs k > 0.8 \<and> now - snd (evs ! k) > 800
            \<and> (\<forall>j. k < j \<and> j \<le> length evs \<longrightarrow> \<not> reading (evs @ [(a, now)]) j > 0.8))"
proof -
  let ?md = "MovementDetector_run new_MovementDetector evs"
  let ?n = "length evs"
  from moving_since [OF mv] obtain k where k: "k < ?n" "19 \<le> k" "reading evs k > 0.8"
    "lastTransitionTime ?md = snd (evs ! k)"
    "\<forall>j. k < j \<and> j < ?n \<longrightarrow> \<not> reading evs j > 0.8"
    by blast
  from k(1,2) have full: "20 \<le> length (window_after ?md a)"
    by (simp add: window_after_length run_window_length MOVEMENT_WINDOW_def)
  have stop: "\<not> fst (MovementDetector_processSample ?md a now) \<longleftrightarrow>
      \<not> window_std (window_after ?md a) > 0.8 \<and> now - snd (evs ! k) > 800"
    unfolding processSample_full [OF full] using mv k(4) by (simp add: Let_def)
  have rl: "reading (evs @ [(a, now)]) ?n = window_std (window_after ?md a)"
    by (rule reading_last)
  show ?thesis
  proof
    assume "\<not> fst (MovementDetector_processSample ?md a now)"
    with stop have low: "\<not> window_std (window_after ?md a) > 0.8"
      and dw: "now - snd (evs ! k) > 800" by simp_all
    have "\<not> reading (evs @ [(a, now)]) j > 0.8" if "k < j" "j \<le> ?n" for j
    proof (cases "j < ?n")
      case True
      with k(5) that show ?thesis by (simp add: reading_snoc)
    next
      case False
      with that have "j = ?n" by simp
      with low rl show ?thesis by simp
    qed
    with k dw show "\<exists>k < length evs. 19 \<le> k \<and> reading evs k > 0.8 \<and> now - snd (evs ! k) > 800
            \<and> (\<forall>j. k < j \<and> j \<le> length evs \<longrightarrow> \<not> reading (evs @ [(a, now)]) j > 0.8)"
      by (intro exI [of _ k]) simp
  next
    assume "\<exists>k < length evs. 19 \<le> k \<and> reading evs k > 0.8 \<and> now - snd (evs ! k) > 800
            \<and> (\<forall>j. k < j \<and> j \<le> length evs \<longrightarrow> \<not> reading (evs @ [(a, now)]) j > 0.8)"
    then obtain k' where k': "k' < ?n" "reading evs k' > 0.8" "now - snd (evs ! k') > 800"
      "\<forall>j. k' < j \<and> j \<le> ?n \<longrightarrow> \<not> reading (evs @ [(a, now)]) j > 0.8"
      by blast
    have "k' = k"
    proof (rule ccontr)
      assume "k' \<noteq> k"
      then consider "k' < k" | "k < k'" by linarith
      then show False
      proof cases
        case 1
        with k'(4) k(1) have "\<not> reading (evs @ [(a, now)]) k > 0.8" by simp
        with k(1,3) show False by (simp add: reading_snoc)
      next
        case 2
        with k(5) k'(1) have "\<not> reading evs k' > 0.8" by simp
        with k'(2) show False by simp
      qed
    qed
    moreover from k'(1,4) have "\<not> reading (evs @ [(a, now)]) ?n > 0.8" by simp
    ultimately show "\<not> fst (MovementDetector_processSample ?md a now)"
      using stop rl k'(3) by simp
  qed
qed

text \<open>
  Claim C8. Write \<open>w\<close> for the window of a call once the new value is in it
  (\<open>window_after\<close>), and \<open>std\<close> for its standard deviation.
  (1) While the window has fewer than 20 values after the push, the call returns the
  prior \<open>isMoving\<close> and changes nothing but the window.
  (2) With 20 values: \<open>intensity\<close> becomes \<open>max 0 (min 1 ((std - 0.3) / 1.5))\<close>;
  if \<open>std > 0.8\<close> the call returns moving, at once; a moving detector turns
  stationary exactly when \<open>std\<close> does not exceed 0.8 and more than 800 ms have passed
  since \<^verbatim>\<open>lastTransitionTime\<close>; a stationary one turns moving exactly when
  \<open>std > 0.8\<close>.
  (3) In a run from a new detector \<open>w\<close> is the last 20 values received.
  (4) \<^verbatim>\<open>lastTransitionTime\<close> is set at every state change and also at every call
  whose reading agrees with the state; so in a run from a new detector with
  timestamps that do not decrease, a call that turns the detector stationary comes
  more than 800 ms after the last state change.
  (5) While a run from a new detector is moving, \<^verbatim>\<open>lastTransitionTime\<close> is the time
  of the last call \<open>k\<close> whose reading exceeded 0.8 (the window was full there). So a
  moving detector turns stationary at a call exactly when no reading after call
  \<open>k\<close>, that of the present call included, exceeded 0.8 and the present call comes
  more than 800 ms after call \<open>k\<close>: the standard deviation has stayed at or below
  the threshold for more than 800 ms. A reading of exactly 0.8 counts as not moving.
\<close>

theorem C8_movement_hysteresis:
  "(length (window md) + 1 < 20 \<longrightarrow>
      MovementDetector_processSample md a now
        = (isMoving md, md\<lparr>window := window md @ [a]\<rparr>))
   \<and> (20 \<le> length (window_after md a) \<longrightarrow>
        intensity (snd (MovementDetector_processSample md a now))
          = max 0 (min 1 ((window_std (window_after md a) - 0.3) / 1.5))
        \<and> (window_std (window_after md a) > 0.8 \<longrightarrow>
              fst (MovementDetector_processSample md a now))
        \<and> (isMoving md \<longrightarrow>
              (\<not> fst (MovementDetector_processSample md a now) \<longleftrightarrow>
                 \<not> window_std (window_after md a) > 0.8
                 \<and> now - lastTransitionTime md > 800))
        \<and> (\<not> isMoving md \<longrightarrow>
              (fst (MovementDetector_processSample md a now) \<longleftrightarrow>
                 window_std (window_after md a) > 0.8)))
   \<and> isMoving (snd (MovementDetector_processSample md a now))
        = fst (MovementDetector_processSample md a now)
   \<and> window_after (MovementDetector_run new_MovementDetector evs) a
        = drop (length evs + 1 - 20) (map fst evs @ [a])
   \<and> (sorted (map snd evs @ [now])
        \<and> isMoving (MovementDetector_run new_MovementDetector evs)
        \<and> \<not> fst (MovementDetector_processSample
                    (MovementDetector_run new_MovementDetector evs) a now) \<longrightarrow>
        (\<exists>f. lastFlip new_MovementDetector None evs = Some f \<and> now - f > 800)
        \<and> \<not> window_std (window_after (MovementDetector_run new_MovementDetector evs) a) > 0.8)
   \<and> (isMoving (MovementDetector_run new_MovementDetector evs) \<longrightarrow>
        (\<exists>k < length evs. 19 \<le> k \<and> reading evs k > 0.8
            \<and> lastTransitionTime (MovementDetector_run new_MovementDetector evs)
                = snd (evs ! k)
            \<and> (\<forall>j. k < j \<and> j < length evs \<longrightarrow> \<not> reading evs j > 0.8)))
   \<and> (isMoving (MovementDetector_run new_MovementDetector evs) \<longrightarrow>
        (\<not> fst (MovementDetector_processSample
                    (MovementDetector_run new_MovementDetector evs) a now) \<longleftrightarrow>
           (\<exists>k < length evs. 19 \<le> k \<and> reading evs k > 0.8
               \<and> now - snd (evs ! k) > 800
               \<and> (\<forall>j. k < j \<and> j \<le> length evs \<longrightarrow>
                      \<not> reading (evs @ [(a, now)]) j > 0.8))))"
proof -
  let ?P = "MovementDetector_processSample md a now"
  have 1: "length (window md) + 1 < 20 \<longrightarrow>
      ?P = (isMoving md, md\<lparr>window := window md @ [a]\<rparr>)"
    using processSample_not_full by blast
  have 2: "20 \<le> length (window_after md a) \<longrightarrow>
        intensity (snd ?P) = max 0 (min 1 ((window_std (window_after md a) - 0.3) / 1.5))
        \<and> (window_std (window_after md a) > 0.8 \<longrightarrow> fst ?P)
        \<and> (isMoving md \<longrightarrow>
              (\<not> fst ?P \<longleftrightarrow>
                 \<not> window_std (window_after md a) > 0.8 \<and> now - lastTransitionTime md > 800))
        \<and> (\<not> isMoving md \<longrightarrow> (fst ?P \<longleftrightarrow> window_std (window_after md a) > 0.8))"
  proof
    assume full: "20 \<le> length (window_after md a)"
    show "intensity (snd ?P) = max 0 (min 1 ((window_std (window_after md a) - 0.3) / 1.5))
        \<and> (window_std (window_after md a) > 0.8 \<longrightarrow> fst ?P)
        \<and> (isMoving md \<longrightarrow>
              (\<not> fst ?P \<longleftrightarrow>
                 \<not> window_std (window_after md a) > 0.8 \<and> now - lastTransitionTime md > 800))
        \<and> (\<not> isMoving md \<longrightarrow> (fst ?P \<longleftrightarrow> window_std (window_after md a) > 0.8))"
      unfolding processSample_full [OF full] by (simp add: Let_def)
  qed
  have 3: "isMoving (snd ?P) = fst ?P" by simp
  have 4: "window_after (MovementDetector_run new_MovementDetector evs) a
        = drop (length evs + 1 - 20) (map fst evs @ [a])"
    using run_window [of "evs @ [(a, now)]"] by (simp add: run_snoc)
  have 5: "sorted (map snd evs @ [now])
        \<and> isMoving (MovementDetector_run new_MovementDetector evs)
        \<and> \<not> fst (MovementDetector_processSample
                    (MovementDetector_run new_MovementDetector evs) a now) \<longrightarrow>
        (\<exists>f. lastFlip new_MovementDetector None evs = Some f \<and> now - f > 800)
        \<and> \<not> window_std (window_after (MovementDetector_run new_MovementDetector evs) a) > 0.8"
  proof (intro impI, elim conjE)
    let ?md = "MovementDetector_run new_MovementDetector evs"
    assume srt: "sorted (map snd evs @ [now])" and mv: "isMoving ?md"
      and st: "\<not> fst (MovementDetector_processSample ?md a now)"
    from srt have "sorted (map snd evs)" by (simp add: sorted_append)
    from flip_before_transition [OF this] mv obtain f where
      f: "lastFlip new_MovementDetector None evs = Some f" "f \<le> lastTransitionTime ?md"
      by auto
    have full: "20 \<le> length (window_after ?md a)"
    proof (rule ccontr)
      assume "\<not> 20 \<le> length (window_after ?md a)"
      then have "length (window ?md) + 1 < 20"
        by (simp add: window_after_length MOVEMENT_WINDOW_def split: if_splits)
      from processSample_not_full [OF this] mv st show False by simp
    qed
    from st mv have "\<not> window_std (window_after ?md a) > 0.8"
      "now - lastTransitionTime ?md > 800"
      unfolding processSample_full [OF full] by (auto simp: Let_def split: if_splits)
    with f show "(\<exists>f. lastFlip new_MovementDetector None evs = Some f \<and> now - f > 800)
        \<and> \<not> window_std (window_after ?md a) > 0.8"
      by auto
  qed
  have 6: "(isMoving (MovementDetector_run new_MovementDetector evs) \<longrightarrow>
            (\<exists>k < length evs. 19 \<le> k \<and> reading evs k > 0.8
                \<and> lastTransitionTime (MovementDetector_run new_MovementDetector evs)
                    = snd (evs ! k)
                \<and> (\<forall>j. k < j \<and> j < length evs \<longrightarrow> \<not> reading evs j > 0.8)))"
    using moving_since [of evs] by blast
  have 7: "(isMoving (MovementDetector_run new_MovementDetector evs) \<longrightarrow>
            (\<not> fst (MovementDetector_processSample
                        (MovementDetector_run new_MovementDetector evs) a now) \<longleftrightarrow>
               (\<exists>k < length evs. 19 \<le> k \<and> reading evs k > 0.8
                   \<and> now - snd (evs ! k) > 800
                   \<and> (\<forall>j. k < j \<and> j \<le> length evs \<longrightarrow>
                          \<not> reading (evs @ [(a, now)]) j > 0.8))))"
    using stop_iff_dwell [of evs a now] by blast
  from 1 2 3 4 5 6 7 show ?thesis by (intro conjI)
qed

lemma sqrt_above_threshold: "(4 / 5 < sqrt v) = (16 / 25 < v)"
proof -
  have a: "(sqrt (16 / 25) < sqrt v) = (16 / 25 < v)" by (rule real_sqrt_less_iff)
  have b: "sqrt (16 / 25) = 4 / 5" by (simp add: real_sqrt_divide)
  show ?thesis using a unfolding b .
qed

lemma sqrt_above_threshold' [simp]: "(4 < sqrt v * 5) = (16 < v * 25)"
  using sqrt_above_threshold [of v] by auto

lemma run_M_19:
  "MovementDetector_run new_MovementDetector (butlast events_M)
     = \<lparr>window = [14, 10, 10, 10, 10, 10, 10, 10, 10, 10, 10, 10, 10, 10, 10, 10, 10, 10, 10],
        isMoving = False, lastTransitionTime = 0, intensity = 0\<rparr>"
  by (simp add: events_M_def new_MovementDetector_def MovementDetector_processSample_def
      window_after_def Let_def MOVEMENT_WINDOW_def)

lemma std_M: "window_std [14, 10, 10, 10, 10, 10, 10, 10, 10, 10,
                          10, 10, 10, 10, 10, 10, 10, 10, 10, 10] = sqrt (19 / 25)"
  by (simp add: window_std_def mean_of_def variance_of_def power2_eq_square)

lemma run_M:
  "isMoving (MovementDetector_run new_MovementDetector events_M)"
  "lastTransitionTime (MovementDetector_run new_MovementDetector events_M) = 380"
  "window (MovementDetector_run new_MovementDetector events_M)
     = [14, 10, 10, 10, 10, 10, 10, 10, 10, 10, 10, 10, 10, 10, 10, 10, 10, 10, 10, 10]"
proof -
  let ?md = "MovementDetector_run new_MovementDetector (butlast events_M)"
  have ev: "events_M = butlast events_M @ [(10, 380)]" by (simp add: events_M_def)
  have w: "window_after ?md 10
     = [14, 10, 10, 10, 10, 10, 10, 10, 10, 10, 10, 10, 10, 10, 10, 10, 10, 10, 10, 10]"
    by (simp add: run_M_19 window_after_def Let_def MOVEMENT_WINDOW_def)
  then have full: "20 \<le> length (window_after ?md 10)" by simp
  have r: "MovementDetector_run new_MovementDetector events_M
             = snd (MovementDetector_processSample ?md 10 380)"
    by (subst ev) (rule run_snoc)
  show "isMoving (MovementDetector_run new_MovementDetector events_M)"
    "lastTransitionTime (MovementDetector_run new_MovementDetector events_M) = 380"
    unfolding r processSample_full [OF full] w std_M
    by (simp_all add: Let_def sqrt_above_threshold run_M_19)
  show "window (MovementDetector_run new_MovementDetector events_M)
     = [14, 10, 10, 10, 10, 10, 10, 10, 10, 10, 10, 10, 10, 10, 10, 10, 10, 10, 10, 10]"
    unfolding r by (simp add: w)
qed

lemma flip_M: "lastFlip new_MovementDetector None events_M = Some 380"
proof -
  have ev: "events_M = butlast events_M @ [(10, 380)]" by (simp add: events_M_def)
  have "isMoving (MovementDetector_run new_MovementDetector (butlast events_M @ [(10, 380)]))
          \<noteq> isMoving (MovementDetector_run new_MovementDetector (butlast events_M))"
    using run_M(1) unfolding ev [symmetric] by (simp add: run_M_19)
  then show ?thesis by (subst ev, subst lastFlip_snoc) simp
qed

lemma std_flat: "window_std (replicate 20 10) = 0"
  by (simp add: window_std_def mean_of_replicate variance_of_replicate)

lemma stop_M:
  "\<not> fst (MovementDetector_processSample (MovementDetector_run new_MovementDetector events_M)
            10 1380)"
proof -
  let ?md = "MovementDetector_run new_MovementDetector events_M"
  have w: "window_after ?md 10 = replicate 20 10"
    by (simp add: run_M window_after_def Let_def MOVEMENT_WINDOW_def eval_nat_numeral)
  then have full: "20 \<le> length (window_after ?md 10)" by simp
  show ?thesis
    unfolding processSample_full [OF full] w std_flat
    by (simp add: Let_def run_M)
qed

lemma step_flat:
  assumes "isMoving md" "lastTransitionTime md = l" "window_after md 10 = replicate 20 10"
    "\<not> now - l > 800"
  shows "isMoving (snd (MovementDetector_processSample md 10 now))"
    "lastTransitionTime (snd (MovementDetector_processSample md 10 now)) = l"
    "window (snd (MovementDetector_processSample md 10 now)) = replicate 20 10"
proof -
  from assms(3) have full: "20 \<le> length (window_after md 10)" by simp
  show "isMoving (snd (MovementDetector_processSample md 10 now))"
    "lastTransitionTime (snd (MovementDetector_processSample md 10 now)) = l"
    unfolding processSample_full [OF full] assms(3) std_flat using assms(1,2,4)
    by (simp_all add: Let_def)
  show "window (snd (MovementDetector_processSample md 10 now)) = replicate 20 10"
    using assms(3) by simp
qed

lemma window_after_flat:
  "window md = replicate 20 10 \<Longrightarrow> window_after md 10 = replicate 20 10"
  by (simp add: window_after_def Let_def MOVEMENT_WINDOW_def eval_nat_numeral)

lemma run_M2:
  "isMoving (MovementDetector_run new_MovementDetector events_M2)"
  "lastTransitionTime (MovementDetector_run new_MovementDetector events_M2) = 380"
  "window (MovementDetector_run new_MovementDetector events_M2) = replicate 20 10"
proof -
  let ?m0 = "MovementDetector_run new_MovementDetector events_M"
  let ?m1 = "snd (MovementDetector_processSample ?m0 10 400)"
  let ?m2 = "snd (MovementDetector_processSample ?m1 10 420)"
  have w0: "window_after ?m0 10 = replicate 20 10"
    by (simp add: run_M window_after_def Let_def MOVEMENT_WINDOW_def eval_nat_numeral)
  note s1 = step_flat [of ?m0 380 400, OF run_M(1) run_M(2) w0]
  have m1: "isMoving ?m1" "lastTransitionTime ?m1 = 380" "window ?m1 = replicate 20 10"
    using s1 by simp_all
  note s2 = step_flat [of ?m1 380 420, OF m1(1) m1(2) window_after_flat [OF m1(3)]]
  have m2: "isMoving ?m2" "lastTransitionTime ?m2 = 380" "window ?m2 = replicate 20 10"
    using s2 by simp_all
  have r: "MovementDetector_run new_MovementDetector events_M2 = ?m2"
  proof -
    have "events_M2 = (events_M @ [(10, 400)]) @ [(10, 420)]" by (simp add: events_M2_def)
    then have "MovementDetector_run new_MovementDetector events_M2
        = MovementDetector_run new_MovementDetector ((events_M @ [(10, 400)]) @ [(10, 420)])"
      by (rule arg_cong)
    then show ?thesis by (simp only: run_snoc)
  qed
  from m2 show "isMoving (MovementDetector_run new_MovementDetector events_M2)"
    "lastTransitionTime (MovementDetector_run new_MovementDetector events_M2) = 380"
    "window (MovementDetector_run new_MovementDetector events_M2) = replicate 20 10"
    unfolding r by simp_all
qed

lemma stop_M2:
  "\<not> fst (MovementDetector_processSample
            (MovementDetector_run new_MovementDetector events_M2) 10 1200)"
proof -
  let ?md = "MovementDetector_run new_MovementDetector events_M2"
  have w: "window_after ?md 10 = replicate 20 10" by (rule window_after_flat) (rule run_M2)
  then have full: "20 \<le> length (window_after ?md 10)" by simp
  show ?thesis
    unfolding processSample_full [OF full] w std_flat by (simp add: Let_def run_M2)
qed

lemma keep_M2:
  "fst (MovementDetector_processSample
            (MovementDetector_run new_MovementDetector events_M2) 10 1180)"
proof -
  let ?md = "MovementDetector_run new_MovementDetector events_M2"
  have w: "window_after ?md 10 = replicate 20 10" by (rule window_after_flat) (rule run_M2)
  then have full: "20 \<le> length (window_after ?md 10)" by simp
  show ?thesis
    unfolding processSample_full [OF full] w std_flat by (simp add: Let_def run_M2)
qed

lemma reading_M2_19: "reading events_M2 19 = sqrt (19 / 25)"
proof -
  have "take (Suc 19) events_M2 = events_M" by (simp add: events_M2_def events_M_def)
  then show ?thesis by (simp add: reading_def run_M(3) std_M)
qed

theorem C8_movement_hysteresis_witness:
  "MovementDetector_processSample new_MovementDetector 14 0
     = (False, new_MovementDetector\<lparr>window := [14]\<rparr>)
   \<and> isMoving (MovementDetector_run new_MovementDetector events_M)
   \<and> sorted (map snd events_M @ [1380])
   \<and> \<not> fst (MovementDetector_processSample
               (MovementDetector_run new_MovementDetector events_M) 10 1380)
   \<and> lastFlip new_MovementDetector None events_M = Some 380
   \<and> (\<exists>f. lastFlip new_MovementDetector None events_M = Some f \<and> 1380 - f > 800)
   \<and> window_after (MovementDetector_run new_MovementDetector (butlast events_M)) 10
       = [14, 10, 10, 10, 10, 10, 10, 10, 10, 10, 10, 10, 10, 10, 10, 10, 10, 10, 10, 10]
   \<and> fst (MovementDetector_processSample
            (MovementDetector_run new_MovementDetector (butlast events_M)) 10 380)
   \<and> intensity (snd (MovementDetector_processSample
            (MovementDetector_run new_MovementDetector (butlast events_M)) 10 380))
       = max 0 (min 1 ((sqrt (19 / 25) - 0.3) / 1.5))
   \<and> isMoving (MovementDetector_run new_MovementDetector events_M2)
   \<and> \<not> fst (MovementDetector_processSample
               (MovementDetector_run new_MovementDetector events_M2) 10 1200)
   \<and> fst (MovementDetector_processSample
            (MovementDetector_run new_MovementDetector events_M2) 10 1180)
   \<and> reading events_M2 19 = sqrt (19 / 25) \<and> snd (events_M2 ! 19) = 380
   \<and> lastTransitionTime (MovementDetector_run new_MovementDetector events_M2) = 380
   \<and> (\<exists>k < length events_M2. 19 \<le> k \<and> reading events_M2 k > 0.8
          \<and> 1200 - snd (events_M2 ! k) > 800
          \<and> (\<forall>j. k < j \<and> j \<le> length events_M2 \<longrightarrow>
                 \<not> reading (events_M2 @ [(10, 1200)]) j > 0.8))"
proof -
  let ?md19 = "MovementDetector_run new_MovementDetector (butlast events_M)"
  let ?md20 = "MovementDetector_run new_MovementDetector events_M"
  have a: "MovementDetector_processSample new_MovementDetector 14 0
     = (False, new_MovementDetector\<lparr>window := [14]\<rparr>)"
    using C8_movement_hysteresis [of new_MovementDetector 14 0 "[]", THEN conjunct1]
    by (simp add: new_MovementDetector_def)
  have srt: "sorted (map snd events_M @ [1380])" by (simp add: events_M_def)
  have w: "window_after ?md19 10
     = [14, 10, 10, 10, 10, 10, 10, 10, 10, 10, 10, 10, 10, 10, 10, 10, 10, 10, 10, 10]"
    by (simp add: run_M_19 window_after_def Let_def MOVEMENT_WINDOW_def)
  note C19 = C8_movement_hysteresis [of ?md19 10 380 "[]", THEN conjunct2, THEN conjunct1]
  have full: "20 \<le> length (window_after ?md19 10)" by (simp add: w)
  from C19 [THEN mp, OF full]
  have i: "intensity (snd (MovementDetector_processSample ?md19 10 380))
       = max 0 (min 1 ((sqrt (19 / 25) - 0.3) / 1.5))"
    and m: "fst (MovementDetector_processSample ?md19 10 380)"
    unfolding w std_M by (simp_all add: sqrt_above_threshold)
  note C20 = C8_movement_hysteresis [of ?md20 10 1380 events_M]
  from C20 [THEN conjunct2, THEN conjunct2, THEN conjunct2, THEN conjunct2, THEN conjunct1,
      THEN mp, OF conjI [OF srt conjI [OF run_M(1) stop_M]]]
  have f: "\<exists>f. lastFlip new_MovementDetector None events_M = Some f \<and> 1380 - f > 800"
    by blast
  note C22 = C8_movement_hysteresis [of new_MovementDetector 10 1200 events_M2]
  from C22 [THEN conjunct2, THEN conjunct2, THEN conjunct2, THEN conjunct2, THEN conjunct2,
      THEN conjunct2, THEN mp, OF run_M2(1)] stop_M2
  have d: "\<exists>k < length events_M2. 19 \<le> k \<and> reading events_M2 k > 0.8
          \<and> 1200 - snd (events_M2 ! k) > 800
          \<and> (\<forall>j. k < j \<and> j \<le> length events_M2 \<longrightarrow>
                 \<not> reading (events_M2 @ [(10, 1200)]) j > 0.8)"
    by (simp only: simp_thms)
  have t: "snd (events_M2 ! 19) = 380" by (simp add: events_M2_def events_M_def)
  from a run_M(1) srt stop_M flip_M f w m i run_M2(1) stop_M2 keep_M2 reading_M2_19 t
    run_M2(2) d
  show ?thesis by (intro conjI)
qed

subsection \<open>Properties of the rounding\<close>

lemmas float_defs = rnd_def ulp_def expo_def round_even_def bit_length.simps Let_def

lemma bit_length_upper: "n < 2 ^ bit_length n"
proof (induction n rule: bit_length.induct)
  case (1 n)
  show ?case
  proof (cases "n = 0")
    case True
    then show ?thesis by (simp add: bit_length.simps)
  next
    case False
    with 1 have IH: "n div 2 < 2 ^ bit_length (n div 2)" by simp
    have b: "bit_length n = Suc (bit_length (n div 2))"
      using False by (subst bit_length.simps) simp
    from IH have "n < 2 * 2 ^ bit_length (n div 2)" by arith
    with b show ?thesis by simp
  qed
qed

lemma bit_length_pos: "0 < n \<Longrightarrow> 0 < bit_length n"
  by (subst bit_length.simps) simp

lemma bit_length_lower: "0 < n \<Longrightarrow> 2 ^ (bit_length n - 1) \<le> n"
proof (induction n rule: bit_length.induct)
  case (1 n)
  then have n: "n \<noteq> 0" by simp
  have b: "bit_length n = Suc (bit_length (n div 2))"
    using n by (subst bit_length.simps) simp
  show ?case
  proof (cases "n div 2 = 0")
    case True
    then have "bit_length (n div 2) = 0" by (simp add: bit_length.simps)
    with b n show ?thesis by simp
  next
    case False
    with 1 n have IH: "2 ^ (bit_length (n div 2) - 1) \<le> n div 2" by simp
    from False have "0 < bit_length (n div 2)" by (simp add: bit_length_pos)
    then have "(2::nat) ^ bit_length (n div 2) = 2 * 2 ^ (bit_length (n div 2) - 1)"
      by (cases "bit_length (n div 2)") simp_all
    with IH have "(2::nat) ^ bit_length (n div 2) \<le> n" by arith
    with b show ?thesis by simp
  qed
qed

lemma floor_bits:
  assumes "1 \<le> (a::real)"
  shows "2 ^ (bit_length (nat \<lfloor>a\<rfloor>) - 1) \<le> a" "a < 2 ^ bit_length (nat \<lfloor>a\<rfloor>)"
    "0 < bit_length (nat \<lfloor>a\<rfloor>)"
proof -
  let ?n = "nat \<lfloor>a\<rfloor>"
  from assms have n: "0 < ?n" by simp
  from assms have le: "real ?n \<le> a" and lt: "a < real ?n + 1" by linarith+
  from bit_length_lower [OF n] have "real (2 ^ (bit_length ?n - 1)) \<le> real ?n"
    by (simp only: of_nat_le_iff)
  also note le
  finally show "2 ^ (bit_length ?n - 1) \<le> a" by simp
  from bit_length_upper [of ?n] have "?n + 1 \<le> 2 ^ bit_length ?n"
    by (simp only: Suc_eq_plus1 [symmetric] Suc_le_eq)
  then have "real (?n + 1) \<le> real (2 ^ bit_length ?n)" by (simp only: of_nat_le_iff)
  then have "real ?n + 1 \<le> 2 ^ bit_length ?n"
    by (simp only: of_nat_add of_nat_1 of_nat_power of_nat_numeral)
  with lt show "a < 2 ^ bit_length ?n" by linarith
  from n show "0 < bit_length ?n" by (rule bit_length_pos)
qed

lemma expo_bounds:
  assumes "x \<noteq> 0"
  shows "2 powi expo x \<le> \<bar>x\<bar> \<and> \<bar>x\<bar> < 2 powi (expo x + 1)"
proof (cases "1 \<le> \<bar>x\<bar>")
  case True
  let ?b = "bit_length (nat \<lfloor>\<bar>x\<bar>\<rfloor>)"
  note f = floor_bits [OF True]
  from True have e: "expo x = int (?b - 1)" using f(3) by (simp add: expo_def Let_def)
  have e1: "expo x + 1 = int ?b" using e f(3) by simp
  show ?thesis unfolding e1 unfolding e using f by (simp only: power_int_of_nat simp_thms)
next
  case False
  let ?a = "\<bar>x\<bar>"
  from assms False have a: "0 < ?a" "?a < 1" by simp_all
  then have y: "1 \<le> 1 / ?a" by simp
  let ?b = "bit_length (nat \<lfloor>1 / ?a\<rfloor>)"
  note f = floor_bits [OF y]
  define k where "k = int ?b - 1"
  have k: "k = int (?b - 1)" "k + 1 = int ?b" using f(3) by (simp_all add: k_def)
  from f(1) a have U: "?a \<le> 2 powi (- k)"
    unfolding k by (simp add: power_int_minus field_simps)
  have mk: "- k - 1 = - int ?b" using k by simp
  have "(2::real) powi (- int ?b) = 1 / 2 ^ ?b" by (simp add: power_int_minus field_simps)
  moreover from f(2) a have "1 / 2 ^ ?b < ?a" by (simp add: field_simps)
  ultimately have L: "2 powi (- k - 1) < ?a" unfolding mk by simp
  show ?thesis
  proof (cases "?a * 2 powi k = 1")
    case True
    with False have e: "expo x = - k" by (simp add: expo_def Let_def k_def)
    from True have "?a = 2 powi (- k)" by (simp add: power_int_minus field_simps)
    moreover have "(2::real) powi (- k) < 2 powi (- k + 1)"
      by (rule power_int_strict_increasing) simp_all
    ultimately show ?thesis unfolding e by simp
  next
    case ne: False
    with False have e: "expo x = - k - 1" by (simp add: expo_def Let_def k_def)
    from ne have "?a \<noteq> 2 powi (- k)" by (simp add: power_int_minus field_simps)
    with U have "?a < 2 powi (- k)" by simp
    with L show ?thesis unfolding e by simp
  qed
qed


text \<open>
  The rounded number is within half a spacing of the exact one, and a number that is
  a double is not changed.
\<close>

lemma round_even_of_int: "round_even (of_int i) = i"
  by (simp add: round_even_def)

lemma round_even_nearest: "\<bar>of_int (round_even x) - x\<bar> \<le> 1 / 2"
  unfolding round_even_def Let_def by (auto simp: abs_if) linarith+

lemma ulp_pos: "0 < ulp x"
  by (simp add: ulp_def)

lemma rnd_nearest: "\<bar>rnd x - x\<bar> \<le> ulp x / 2"
proof -
  have "rnd x - x = (of_int (round_even (x / ulp x)) - x / ulp x) * ulp x"
    using ulp_pos [of x] by (simp add: rnd_def field_simps)
  then have "\<bar>rnd x - x\<bar> = \<bar>of_int (round_even (x / ulp x)) - x / ulp x\<bar> * ulp x"
    using ulp_pos [of x] by (simp only: abs_mult abs_of_pos)
  also have "\<dots> \<le> 1 / 2 * ulp x"
    using round_even_nearest [of "x / ulp x"] ulp_pos [of x]
    by (intro mult_right_mono) simp_all
  finally show ?thesis by simp
qed

lemma rnd_0: "rnd 0 = 0"
  by (simp add: rnd_def round_even_def)

lemma rnd_exact:
  assumes m: "\<bar>m\<bar> < 2 ^ 53" and k: "- 1074 \<le> k"
  shows "rnd (of_int m * 2 powi k) = of_int m * 2 powi k"
proof (cases "m = 0")
  case True
  then show ?thesis by (simp add: rnd_0)
next
  case False
  define x :: real where "x = of_int m * 2 powi k"
  define c where "c = max (expo x) (- 1022) - 52"
  from False have x0: "x \<noteq> 0" by (simp add: x_def)
  have "\<bar>x\<bar> = \<bar>of_int m\<bar> * 2 powi k" by (simp add: x_def abs_mult)
  also have "\<dots> < 2 ^ 53 * 2 powi k"
  proof (rule mult_strict_right_mono)
    from m have "real_of_int \<bar>m\<bar> < real_of_int (2 ^ 53)" by (simp only: of_int_less_iff)
    then show "\<bar>real_of_int m\<bar> < 2 ^ 53" by simp
  qed simp
  also have "\<dots> = 2 powi (53 + k)" by (simp add: power_int_add)
  finally have "2 powi expo x < (2::real) powi (53 + k)"
    using expo_bounds [OF x0] by simp
  then have "expo x < 53 + k"
    using power_int_increasing [of "53 + k" "expo x" "2::real"] by (cases "expo x < 53 + k") simp_all
  with k have ck: "c \<le> k" by (simp add: c_def)
  have u: "ulp x = 2 powi c" by (simp add: ulp_def c_def)
  have "(2::real) powi k = 2 powi (c + (k - c))" by simp
  also have "\<dots> = 2 powi c * 2 powi (k - c)" by (rule power_int_add) simp
  also have "(2::real) powi (k - c) = 2 ^ nat (k - c)" using ck by (simp add: power_int_def)
  finally have pk: "(2::real) powi k = 2 powi c * 2 ^ nat (k - c)" .
  have xk: "x = of_int m * 2 ^ nat (k - c) * 2 powi c" by (simp add: x_def pk)
  have "x / 2 powi c = of_int m * 2 ^ nat (k - c)" by (subst xk) simp
  also have "\<dots> = of_int (m * 2 ^ nat (k - c))" by simp
  finally have "round_even (x / 2 powi c) = m * 2 ^ nat (k - c)"
    by (simp only: round_even_of_int)
  then have "of_int (round_even (x / 2 powi c)) * 2 powi c = x" by (subst (2) xk) simp
  then have "rnd x = x" by (simp only: rnd_def u)
  then show ?thesis by (simp only: x_def)
qed

lemma rnd_of_int: "\<bar>i\<bar> < 2 ^ 53 \<Longrightarrow> rnd (of_int i) = of_int i"
  using rnd_exact [of i 0] by simp

lemma sqrt_bits_correct:
  "r * r \<le> n \<Longrightarrow> n < (r + 2 ^ Suc k) * (r + 2 ^ Suc k) \<Longrightarrow>
     sqrt_bits n k r * sqrt_bits n k r \<le> n \<and> n < (sqrt_bits n k r + 1) * (sqrt_bits n k r + 1)"
proof (induction k arbitrary: r)
  case 0
  then show ?case by (subst (1 2 3 4) sqrt_bits.simps) simp
next
  case (Suc k)
  define r' where "r' = (if (r + 2 ^ Suc k) * (r + 2 ^ Suc k) \<le> n then r + 2 ^ Suc k else r)"
  have s: "sqrt_bits n (Suc k) r = sqrt_bits n k r'"
    by (subst sqrt_bits.simps) (simp add: r'_def)
  have "r' * r' \<le> n" using Suc.prems by (simp add: r'_def)
  moreover have "n < (r' + 2 ^ Suc k) * (r' + 2 ^ Suc k)"
  proof (cases "(r + 2 ^ Suc k) * (r + 2 ^ Suc k) \<le> n")
    case True
    then have "r' + 2 ^ Suc k = r + 2 ^ Suc (Suc k)" by (simp add: r'_def)
    with Suc.prems(2) show ?thesis by (simp only:)
  next
    case False
    then show ?thesis by (simp add: r'_def)
  qed
  ultimately show ?case unfolding s by (rule Suc.IH)
qed

lemma isqrt_correct: "isqrt n * isqrt n \<le> n \<and> n < (isqrt n + 1) * (isqrt n + 1)"
proof -
  have "n < 2 ^ bit_length n" by (rule bit_length_upper)
  also have "(2::nat) ^ bit_length n
      \<le> 2 ^ (Suc (bit_length n div 2) + Suc (bit_length n div 2))"
    by (rule power_increasing) simp_all
  also have "\<dots> = 2 ^ Suc (bit_length n div 2) * 2 ^ Suc (bit_length n div 2)"
    by (rule power_add)
  finally have "n < (0 + 2 ^ Suc (bit_length n div 2)) * (0 + 2 ^ Suc (bit_length n div 2))"
    by simp
  then show ?thesis unfolding isqrt_def by (intro sqrt_bits_correct) simp_all
qed

lemma fsqrt_0: "fsqrt 0 = 0"
  by (simp add: fsqrt_def)

text \<open>
  The rounded square root is within half a spacing of the exact one.
\<close>

lemma fsqrt_nearest:
  assumes x: "0 < x"
  shows "\<bar>fsqrt x - sqrt x\<bar> \<le> 2 powi (expo x div 2 - 52) / 2"
proof -
  define u :: real where "u = 2 powi (expo x div 2 - 52)"
  define N where "N = nat \<lfloor>x / (u * u)\<rfloor>"
  define m where "m = isqrt N"
  define h where "h = (real m + 1 / 2) * u"
  have u: "0 < u" by (simp add: u_def)
  from x u have q: "0 \<le> x / (u * u)" by simp
  then have N: "real N \<le> x / (u * u)" "x / (u * u) < real N + 1"
    unfolding N_def by linarith+
  from isqrt_correct [of N] have m: "m * m \<le> N" "N < (m + 1) * (m + 1)"
    by (simp_all add: m_def)
  from m(1) have "real (m * m) \<le> real N" by (simp only: of_nat_le_iff)
  with N(1) have "real m * real m \<le> x / (u * u)" by simp
  with u have lo2: "(real m * u)\<^sup>2 \<le> x" by (simp add: field_simps power2_eq_square)
  then have lo: "real m * u \<le> sqrt x" by (rule real_le_rsqrt)
  from m(2) have "N + 1 \<le> (m + 1) * (m + 1)" by simp
  then have "real (N + 1) \<le> real ((m + 1) * (m + 1))" by (simp only: of_nat_le_iff)
  then have "real N + 1 \<le> (real m + 1) * (real m + 1)"
    by (simp only: of_nat_add of_nat_mult of_nat_1)
  with N(2) have "x / (u * u) < (real m + 1) * (real m + 1)" by linarith
  with u have hi2: "x < ((real m + 1) * u)\<^sup>2" by (simp add: field_simps power2_eq_square)
  have "sqrt x < sqrt (((real m + 1) * u)\<^sup>2)" using hi2 by (simp only: real_sqrt_less_iff)
  with u have hi: "sqrt x < (real m + 1) * u" by simp
  have h0: "0 \<le> h" using u by (simp add: h_def)
  have f: "fsqrt x = (if x < h * h \<or> (x = h * h \<and> even (int m)) then real m * u
                      else (real m + 1) * u)"
    using x by (simp add: fsqrt_def Let_def u_def [symmetric] N_def [symmetric]
        m_def [symmetric] h_def [symmetric])
  show ?thesis
  proof (cases "x \<le> h * h")
    case True
    with h0 have le: "sqrt x \<le> h"
      by (intro real_le_lsqrt) (simp_all add: power2_eq_square)
    have ge: "h \<le> sqrt x" if "\<not> (x < h * h \<or> (x = h * h \<and> even (int m)))"
    proof -
      from that True have "x = h * h" by auto
      with h0 show ?thesis by (simp add: real_sqrt_mult)
    qed
    show ?thesis
      unfolding f u_def [symmetric] using lo hi le ge
      by (auto simp: h_def abs_if algebra_simps)
  next
    case False
    then have "h\<^sup>2 < x" by (simp add: power2_eq_square)
    then have "sqrt (h\<^sup>2) < sqrt x" by (simp only: real_sqrt_less_iff)
    with h0 have "h < sqrt x" by simp
    with False show ?thesis
      unfolding f u_def [symmetric] using lo hi
      by (auto simp: h_def abs_if algebra_simps)
  qed
qed

subsection \<open>Properties of the profile statistics\<close>

lemma computeProfile_Some:
  "ps \<noteq> [] \<Longrightarrow>
     computeProfile (Some ps)
       = Some \<lparr>count = length ps, stat = (\<lambda>key. Some (feature_stat_of ps key))\<rparr>"
proof -
  assume ps: "ps \<noteq> []"
  have "(\<lambda>key. Some (feature_stat_of ps key)) = 
     (fold (\<lambda>key m. m(key \<mapsto> feature_stat_of ps key)) featureKeys Map.empty)"
    (is "?f = ?g")
  proof
    fix key show "?f key = ?g key" by (cases key) (simp_all add: featureKeys_def)
  qed
  moreover have "\<And>ks m. fold (\<lambda>key pr. pr\<lparr>stat := (stat pr)(key \<mapsto> feature_stat_of ps key)\<rparr>) ks
       \<lparr>count = length ps, stat = m\<rparr>
     = \<lparr>count = length ps, stat = fold (\<lambda>key m. m(key \<mapsto> feature_stat_of ps key)) ks m\<rparr>"
  proof -
    fix ks m show "fold (\<lambda>key pr. pr\<lparr>stat := (stat pr)(key \<mapsto> feature_stat_of ps key)\<rparr>) ks
       \<lparr>count = length ps, stat = m\<rparr>
     = \<lparr>count = length ps, stat = fold (\<lambda>key m. m(key \<mapsto> feature_stat_of ps key)) ks m\<rparr>"
      by (induction ks arbitrary: m) simp_all
  qed
  ultimately show ?thesis using ps by (simp add: computeProfile_def)
qed

lemma vals_replicate:
  "f key = Some v \<Longrightarrow> List.map_filter (\<lambda>p. p key) (replicate n f) = replicate n v"
  by (simp add: List.map_filter_def)

lemma vals_replicate_None:
  "f key = None \<Longrightarrow> List.map_filter (\<lambda>p. p key) (replicate n f) = []"
  by (simp add: List.map_filter_def)

lemma foldl_replicate_Suc:
  "foldl g a (replicate (Suc n) v) = g (foldl g a (replicate n v)) v"
proof -
  have "replicate (Suc n) v = replicate n v @ [v]" by (simp add: replicate_append_same)
  then show ?thesis by (simp only: foldl_append foldl.simps)
qed

lemma fsum_replicate:
  "(\<And>j. j \<le> n \<Longrightarrow> rnd (real j * v) = real j * v) \<Longrightarrow>
     foldl (\<lambda>a b. fadd a b) 0 (replicate n v) = real n * v"
proof (induction n)
  case 0
  show ?case by simp
next
  case (Suc n)
  then have "foldl (\<lambda>a b. fadd a b) 0 (replicate n v) = real n * v" by simp
  then have "foldl (\<lambda>a b. fadd a b) 0 (replicate (Suc n) v) = rnd (real n * v + v)"
    by (simp only: foldl_replicate_Suc fadd_def)
  also have "real n * v + v = real (Suc n) * v" by (simp add: algebra_simps)
  also have "rnd (real (Suc n) * v) = real (Suc n) * v" by (rule Suc.prems) simp
  finally show ?case .
qed

lemma fsq_replicate:
  "foldl (\<lambda>a x. fadd a (fmul (fsub x v) (fsub x v))) 0 (replicate n v) = 0"
  by (induction n) (simp_all only: foldl_replicate_Suc, simp_all add: fadd_def fsub_def fmul_def rnd_0)

lemma exact_sums_iff: "exact_sums n v \<longleftrightarrow> (\<forall>j \<le> n. finite_double (real j * v))"
  by (auto simp: exact_sums_def list_all_iff)

lemma feature_stat_of_replicate:
  assumes n: "0 < n" and v: "f key = Some v"
  shows "min_v (feature_stat_of (replicate n f) key) = v"
    "max_v (feature_stat_of (replicate n f) key) = v"
    "mean (feature_stat_of (replicate n f) key) = v \<Longrightarrow> std (feature_stat_of (replicate n f) key) = 0"
    "exact_sums n v \<Longrightarrow> mean (feature_stat_of (replicate n f) key) = v"
proof -
  note vals = vals_replicate [where f = f and key = key and v = v and n = n, OF v]
  from n have s: "set (replicate n v) = {v}" by simp
  from n show "min_v (feature_stat_of (replicate n f) key) = v"
    by (simp add: feature_stat_of_def vals s Let_def)
  from n show "max_v (feature_stat_of (replicate n f) key) = v"
    by (simp add: feature_stat_of_def vals s Let_def)
  show "std (feature_stat_of (replicate n f) key) = 0"
    if "mean (feature_stat_of (replicate n f) key) = v"
  proof -
    from that n have "fdiv (foldl (\<lambda>a b. fadd a b) 0 (replicate n v)) (real n) = v"
      by (simp add: feature_stat_of_def vals Let_def)
    with n show ?thesis
      by (simp add: feature_stat_of_def vals Let_def fsq_replicate fdiv_def rnd_0 fsqrt_0)
  qed
  show "mean (feature_stat_of (replicate n f) key) = v" if "exact_sums n v"
  proof -
    from that have e: "\<And>j. j \<le> n \<Longrightarrow> rnd (real j * v) = real j * v"
      by (simp add: exact_sums_iff finite_double_def)
    from e [of 1] n have "rnd v = v" by simp
    with n show ?thesis
      by (simp add: feature_stat_of_def vals Let_def fsum_replicate [OF e] fdiv_def)
  qed
qed

lemma exact_sums_of_int:
  assumes "int n * \<bar>i\<bar> < 2 ^ 53"
  shows "exact_sums n (of_int i)"
  unfolding exact_sums_iff
proof (intro allI impI)
  fix j assume j: "j \<le> n"
  have e: "real j * of_int i = of_int (int j * i)" by simp
  have "\<bar>int j * i\<bar> = int j * \<bar>i\<bar>" by (simp add: abs_mult)
  also have "\<dots> \<le> int n * \<bar>i\<bar>" using j by (intro mult_right_mono) simp_all
  also note assms
  finally have b: "\<bar>int j * i\<bar> < 2 ^ 53" .
  then have "real_of_int \<bar>int j * i\<bar> < real_of_int (2 ^ 53)" by (simp only: of_int_less_iff)
  then have "\<bar>real_of_int (int j * i)\<bar> < 2 ^ 53" by simp
  also have "(2::real) ^ 53 < 2 ^ 1024" by simp
  finally have "\<bar>real_of_int (int j * i)\<bar> < 2 ^ 1024" .
  with rnd_of_int [OF b] show "finite_double (real j * of_int i)"
    unfolding e finite_double_def by simp
qed

text \<open>The statistics of ten feature vectors that all hold the double \<^verbatim>\<open>0.1\<close>.\<close>

lemma tenth_eq: "tenth = 3602879701896397 / 36028797018963968"
  unfolding tenth_def by (simp add: float_defs)

lemma replicate_10: "replicate 10 x = [x, x, x, x, x, x, x, x, x, x]"
  by (simp add: eval_nat_numeral)

lemma sum_tenth_1: "fadd (0) (3602879701896397 / 36028797018963968) = 3602879701896397 / 36028797018963968"
  by (simp add: fadd_def float_defs)

lemma sum_tenth_2: "fadd (3602879701896397 / 36028797018963968) (3602879701896397 / 36028797018963968) = 3602879701896397 / 18014398509481984"
  by (simp add: fadd_def float_defs)

lemma sum_tenth_3: "fadd (3602879701896397 / 18014398509481984) (3602879701896397 / 36028797018963968) = 1351079888211149 / 4503599627370496"
  by (simp add: fadd_def float_defs)

lemma sum_tenth_4: "fadd (1351079888211149 / 4503599627370496) (3602879701896397 / 36028797018963968) = 3602879701896397 / 9007199254740992"
  by (simp add: fadd_def float_defs)

lemma sum_tenth_5: "fadd (3602879701896397 / 9007199254740992) (3602879701896397 / 36028797018963968) = 1 / 2"
  by (simp add: fadd_def float_defs)

lemma sum_tenth_6: "fadd (1 / 2) (3602879701896397 / 36028797018963968) = 5404319552844595 / 9007199254740992"
  by (simp add: fadd_def float_defs)

lemma sum_tenth_7: "fadd (5404319552844595 / 9007199254740992) (3602879701896397 / 36028797018963968) = 3152519739159347 / 4503599627370496"
  by (simp add: fadd_def float_defs)

lemma sum_tenth_8: "fadd (3152519739159347 / 4503599627370496) (3602879701896397 / 36028797018963968) = 7205759403792793 / 9007199254740992"
  by (simp add: fadd_def float_defs)

lemma sum_tenth_9: "fadd (7205759403792793 / 9007199254740992) (3602879701896397 / 36028797018963968) = 2026619832316723 / 2251799813685248"
  by (simp add: fadd_def float_defs)

lemma sum_tenth_10: "fadd (2026619832316723 / 2251799813685248) (3602879701896397 / 36028797018963968) = 9007199254740991 / 9007199254740992"
  by (simp add: fadd_def float_defs)

lemma mean_tenth: "fdiv (9007199254740991 / 9007199254740992) 10 = 7205759403792793 / 72057594037927936"
  by (simp add: fdiv_def float_defs)

lemma dev_tenth: "fsub (3602879701896397 / 36028797018963968) (7205759403792793 / 72057594037927936) = 1 / 72057594037927936"
  by (simp add: fsub_def float_defs)

lemma sq_tenth: "fmul (1 / 72057594037927936) (1 / 72057594037927936) = 1 / 5192296858534827628530496329220096"
  by (simp add: fmul_def float_defs)

lemma sq_tenth_1: "fadd (0) (1 / 5192296858534827628530496329220096) = 1 / 5192296858534827628530496329220096"
  by (simp add: fadd_def float_defs)

lemma sq_tenth_2: "fadd (1 / 5192296858534827628530496329220096) (1 / 5192296858534827628530496329220096) = 1 / 2596148429267413814265248164610048"
  by (simp add: fadd_def float_defs)

lemma sq_tenth_3: "fadd (1 / 2596148429267413814265248164610048) (1 / 5192296858534827628530496329220096) = 3 / 5192296858534827628530496329220096"
  by (simp add: fadd_def float_defs)

lemma sq_tenth_4: "fadd (3 / 5192296858534827628530496329220096) (1 / 5192296858534827628530496329220096) = 1 / 1298074214633706907132624082305024"
  by (simp add: fadd_def float_defs)

lemma sq_tenth_5: "fadd (1 / 1298074214633706907132624082305024) (1 / 5192296858534827628530496329220096) = 5 / 5192296858534827628530496329220096"
  by (simp add: fadd_def float_defs)

lemma sq_tenth_6: "fadd (5 / 5192296858534827628530496329220096) (1 / 5192296858534827628530496329220096) = 3 / 2596148429267413814265248164610048"
  by (simp add: fadd_def float_defs)

lemma sq_tenth_7: "fadd (3 / 2596148429267413814265248164610048) (1 / 5192296858534827628530496329220096) = 7 / 5192296858534827628530496329220096"
  by (simp add: fadd_def float_defs)

lemma sq_tenth_8: "fadd (7 / 5192296858534827628530496329220096) (1 / 5192296858534827628530496329220096) = 1 / 649037107316853453566312041152512"
  by (simp add: fadd_def float_defs)

lemma sq_tenth_9: "fadd (1 / 649037107316853453566312041152512) (1 / 5192296858534827628530496329220096) = 9 / 5192296858534827628530496329220096"
  by (simp add: fadd_def float_defs)

lemma sq_tenth_10: "fadd (9 / 5192296858534827628530496329220096) (1 / 5192296858534827628530496329220096) = 5 / 2596148429267413814265248164610048"
  by (simp add: fadd_def float_defs)

lemma var_tenth: "fdiv (5 / 2596148429267413814265248164610048) 10 = 1 / 5192296858534827628530496329220096"
  by (simp add: fdiv_def float_defs)

lemma std_tenth: "fsqrt (1 / 5192296858534827628530496329220096) = 1 / 72057594037927936"
  by (simp add: fsqrt_def isqrt_def sqrt_bits.simps float_defs)

lemma feature_stat_tenth:
  "feature_stat_of (replicate 10 (features_const tenth)) key
     = \<lparr>mean = 7205759403792793 / 72057594037927936, std = 1 / 72057594037927936,
        min_v = 3602879701896397 / 36028797018963968, max_v = 3602879701896397 / 36028797018963968\<rparr>"
proof -
  have vals: "List.map_filter (\<lambda>p. p key) (replicate 10 (features_const tenth))
      = replicate 10 (3602879701896397 / 36028797018963968)"
    by (rule vals_replicate) (simp add: features_const_def tenth_eq)
  have s: "foldl (\<lambda>a b. fadd a b) 0 (replicate 10 (3602879701896397 / 36028797018963968)) = 9007199254740991 / 9007199254740992"
    unfolding replicate_10
    by (simp only: foldl.simps sum_tenth_1 sum_tenth_2 sum_tenth_3 sum_tenth_4 sum_tenth_5 sum_tenth_6 sum_tenth_7 sum_tenth_8 sum_tenth_9 sum_tenth_10)
  have q: "foldl (\<lambda>a v. fadd a (fmul (fsub v (7205759403792793 / 72057594037927936)) (fsub v (7205759403792793 / 72057594037927936))))
        0 (replicate 10 (3602879701896397 / 36028797018963968)) = 5 / 2596148429267413814265248164610048"
    unfolding replicate_10
    by (simp only: foldl.simps dev_tenth sq_tenth sq_tenth_1 sq_tenth_2 sq_tenth_3 sq_tenth_4 sq_tenth_5 sq_tenth_6 sq_tenth_7 sq_tenth_8 sq_tenth_9 sq_tenth_10)
  have l: "real (length (replicate 10 (3602879701896397 / 36028797018963968::real))) = 10" by simp
  have m: "Min (set (replicate 10 (3602879701896397 / 36028797018963968::real))) = 3602879701896397 / 36028797018963968"
    "Max (set (replicate 10 (3602879701896397 / 36028797018963968::real))) = 3602879701896397 / 36028797018963968" by simp_all
  show ?thesis
    unfolding feature_stat_of_def vals Let_def l s mean_tenth q var_tenth std_tenth m
    by simp
qed

text \<open>
  Counterexample to claim C7 as stated: for ten identical feature vectors that hold
  \<^verbatim>\<open>0.1\<close> under every key, the additions of the running sum round and the sum ends
  at \<^verbatim>\<open>0.9999999999999999\<close>, so the mean is \<^verbatim>\<open>0.09999999999999999\<close>, one spacing
  below the shared value, and the standard deviation is \<open>2\<^sup>-\<^sup>5\<^sup>6\<close>, not 0.
\<close>

theorem C7_counterexample:
  "features_const tenth PeakMag = Some tenth
   \<and> tenth = 3602879701896397 / 36028797018963968
   \<and> computeProfile (Some (replicate 10 (features_const tenth)))
       = Some \<lparr>count = 10,
               stat = (\<lambda>key. Some \<lparr>mean = 7205759403792793 / 72057594037927936,
                                    std = 1 / 72057594037927936,
                                    min_v = 3602879701896397 / 36028797018963968,
                                    max_v = 3602879701896397 / 36028797018963968\<rparr>)\<rparr>
   \<and> (7205759403792793 / 72057594037927936 :: real) \<noteq> 3602879701896397 / 36028797018963968
   \<and> (1 / 72057594037927936 :: real) \<noteq> 0"
proof -
  have "replicate 10 (features_const tenth) \<noteq> []" by simp
  from computeProfile_Some [OF this]
  have "computeProfile (Some (replicate 10 (features_const tenth)))
       = Some \<lparr>count = 10,
               stat = (\<lambda>key. Some \<lparr>mean = 7205759403792793 / 72057594037927936,
                                    std = 1 / 72057594037927936,
                                    min_v = 3602879701896397 / 36028797018963968,
                                    max_v = 3602879701896397 / 36028797018963968\<rparr>)\<rparr>"
    by (simp only: feature_stat_tenth length_replicate)
  then show ?thesis by (simp add: tenth_eq features_const_def)
qed

text \<open>
  Claim C7, as the source has it. \<^verbatim>\<open>computeProfile\<close> returns \<^verbatim>\<open>null\<close> for a missing
  and for an empty pattern list. For \<open>n > 0\<close> identical feature vectors it returns a
  profile with \<open>count = n\<close> in which every feature that the vectors hold has \<open>min\<close>
  and \<open>max\<close> equal to the shared value \<open>v\<close> (a feature that they lack has zeros);
  \<open>std\<close> is 0 whenever \<open>mean\<close> is \<open>v\<close>; and \<open>mean\<close> is \<open>v\<close>, with \<open>std = 0\<close>, when the
  running sums \<open>v, 2v, \<dots>, nv\<close> are all doubles, as they are for integer values up to
  \<open>2\<^sup>5\<^sup>3 / n\<close>. In general \<open>mean\<close> is the rounded running sum divided by \<open>n\<close>, which
  need not be \<open>v\<close>.
\<close>

theorem C7_profile_of_identical:
  "computeProfile None = None
   \<and> computeProfile (Some []) = None
   \<and> (0 < n \<longrightarrow>
        (\<exists>pr. computeProfile (Some (replicate n f)) = Some pr
           \<and> count pr = n
           \<and> (\<forall>key. case f key of
                  None \<Rightarrow> stat pr key = Some \<lparr>mean = 0, std = 0, min_v = 0, max_v = 0\<rparr>
                | Some v \<Rightarrow>
                    (\<exists>st. stat pr key = Some st \<and> min_v st = v \<and> max_v st = v
                       \<and> (mean st = v \<longrightarrow> std st = 0)
                       \<and> (exact_sums n v \<longrightarrow> mean st = v \<and> std st = 0)))))"
proof (intro conjI impI)
  show "computeProfile None = None" by (simp add: computeProfile_def)
  show "computeProfile (Some []) = None" by (simp add: computeProfile_def)
next
  assume n: "0 < n"
  let ?pr = "\<lparr>count = length (replicate n f),
             stat = (\<lambda>key. Some (feature_stat_of (replicate n f) key))\<rparr>"
  from n have "replicate n f \<noteq> []" by simp
  then have c: "computeProfile (Some (replicate n f)) = Some ?pr"
    by (rule computeProfile_Some)
  have "case f key of
          None \<Rightarrow> stat ?pr key = Some \<lparr>mean = 0, std = 0, min_v = 0, max_v = 0\<rparr>
        | Some v \<Rightarrow>
            (\<exists>st. stat ?pr key = Some st \<and> min_v st = v \<and> max_v st = v
               \<and> (mean st = v \<longrightarrow> std st = 0)
               \<and> (exact_sums n v \<longrightarrow> mean st = v \<and> std st = 0))" for key
  proof (cases "f key")
    case None
    then show ?thesis
      by (simp add: feature_stat_of_def vals_replicate_None [where f = f and key = key])
  next
    case (Some v)
    note p = feature_stat_of_replicate [where f = f and key = key and v = v and n = n, OF n Some]
    show ?thesis using Some p by simp
  qed
  with c show "\<exists>pr. computeProfile (Some (replicate n f)) = Some pr
           \<and> count pr = n
           \<and> (\<forall>key. case f key of
                  None \<Rightarrow> stat pr key = Some \<lparr>mean = 0, std = 0, min_v = 0, max_v = 0\<rparr>
                | Some v \<Rightarrow>
                    (\<exists>st. stat pr key = Some st \<and> min_v st = v \<and> max_v st = v
                       \<and> (mean st = v \<longrightarrow> std st = 0)
                       \<and> (exact_sums n v \<longrightarrow> mean st = v \<and> std st = 0)))"
    by (intro exI [of _ ?pr]) simp
qed

theorem C7_profile_of_identical_witness:
  "(0::nat) < 10 \<and> exact_sums 10 20
   \<and> (\<exists>pr. computeProfile (Some (replicate 10 (features_const 20))) = Some pr
          \<and> count pr = 10
          \<and> (\<forall>key. \<exists>st. stat pr key = Some st \<and> mean st = 20 \<and> std st = 0
                 \<and> min_v st = 20 \<and> max_v st = 20))"
proof -
  have e: "exact_sums 10 20" using exact_sums_of_int [of 10 20] by simp
  from C7_profile_of_identical [of 10 "features_const 20"] e show ?thesis
    by (simp add: features_const_def) blast
qed

end
